theory Spec2Isabelle
  imports Main "HOL-Library.Product_Lexorder"
begin

section \<open>Cells and sentences\<close>

text \<open>A cell is a Python tuple \<open>(i, j)\<close> of unbounded integers.\<close>

type_synonym cell = "int \<times> int"

text \<open>
  Class \<open>Sentence\<close>: a set of cells and a count. The count is a Python int: nothing in
  the class keeps it non-negative. Equality of records is equality of both fields, which
  is \<open>Sentence.__eq__\<close>.
\<close>

record sentence =
  cells :: "cell set"
  count :: int

definition known_mines :: "sentence \<Rightarrow> cell set" where
  "known_mines s = (if int (card (cells s)) = count s then cells s else {})"

definition known_safes :: "sentence \<Rightarrow> cell set" where
  "known_safes s = (if count s = 0 then cells s else {})"

text \<open>\<open>Sentence.mark_mine\<close> and \<open>Sentence.mark_safe\<close>: the sentence after the call and
  the returned 1 or 0.\<close>

definition sentence_mark_mine :: "sentence \<Rightarrow> cell \<Rightarrow> sentence \<times> int" where
  "sentence_mark_mine s cell =
     (if cell \<in> cells s then (s\<lparr>cells := cells s - {cell}, count := count s - 1\<rparr>, 1)
      else (s, 0))"

definition sentence_mark_safe :: "sentence \<Rightarrow> cell \<Rightarrow> sentence \<times> int" where
  "sentence_mark_safe s cell =
     (if cell \<in> cells s then (s\<lparr>cells := cells s - {cell}\<rparr>, 1)
      else (s, 0))"

section \<open>The player's state\<close>

record ai =
  height :: int
  width :: int
  moves_made :: "cell set"
  mines :: "cell set"
  safes :: "cell set"
  knowledge :: "sentence list"

definition MinesweeperAI :: "int \<Rightarrow> int \<Rightarrow> ai" where
  "MinesweeperAI h w =
     \<lparr>height = h, width = w, moves_made = {}, mines = {}, safes = {}, knowledge = []\<rparr>"

text \<open>The loop \<open>for sentence in self.knowledge: count += sentence.mark_mine(cell)\<close>:
  the sentences after the loop and the sum of the returned values.\<close>

fun mark_mine_loop :: "sentence list \<Rightarrow> cell \<Rightarrow> sentence list \<times> int" where
  "mark_mine_loop [] cell = ([], 0)"
| "mark_mine_loop (s # ss) cell =
     (let (s', n) = sentence_mark_mine s cell;
          (ss', m) = mark_mine_loop ss cell
      in (s' # ss', n + m))"

fun mark_safe_loop :: "sentence list \<Rightarrow> cell \<Rightarrow> sentence list \<times> int" where
  "mark_safe_loop [] cell = ([], 0)"
| "mark_safe_loop (s # ss) cell =
     (let (s', n) = sentence_mark_safe s cell;
          (ss', m) = mark_safe_loop ss cell
      in (s' # ss', n + m))"

definition mark_mine :: "ai \<Rightarrow> cell \<Rightarrow> ai \<times> int" where
  "mark_mine kb cell =
     (let (ks, n) = mark_mine_loop (knowledge kb) cell
      in (kb\<lparr>mines := insert cell (mines kb), knowledge := ks\<rparr>, n))"

definition mark_safe :: "ai \<Rightarrow> cell \<Rightarrow> ai \<times> int" where
  "mark_safe kb cell =
     (let (ks, n) = mark_safe_loop (knowledge kb) cell
      in (kb\<lparr>safes := insert cell (safes kb), knowledge := ks\<rparr>, n))"

section \<open>Propagation: \<open>update\<close>\<close>

text \<open>
  \<open>for cell in cs: counter += self.mark_safe(cell)\<close> over the cells in the order \<open>cs\<close>,
  on the pair of the state and the counter.
\<close>

fun mark_safe_cells :: "cell list \<Rightarrow> ai \<times> int \<Rightarrow> ai \<times> int" where
  "mark_safe_cells [] st = st"
| "mark_safe_cells (c # cs) (kb, counter) =
     (let (kb', n) = mark_safe kb c in mark_safe_cells cs (kb', counter + n))"

fun mark_mine_cells :: "cell list \<Rightarrow> ai \<times> int \<Rightarrow> ai \<times> int" where
  "mark_mine_cells [] st = st"
| "mark_mine_cells (c # cs) (kb, counter) =
     (let (kb', n) = mark_mine kb c in mark_mine_cells cs (kb', counter + n))"

text \<open>
  The body of \<open>for x in self.knowledge\<close> for the sentence at index \<open>i\<close>. The sentence
  is an object that the calls mutate, so \<open>x.known_mines()\<close> reads the sentence as the
  first inner loop left it. \<open>known_safes\<close> and \<open>known_mines\<close> return copies, so the loops
  run over the cells the sentence had when the copy was made. A Python set is iterated
  in an unspecified order; the model takes the sorted one (the lemmas
  \<open>mark_safe_cells_order\<close> and \<open>mark_mine_cells_order\<close> show that the order does not
  matter).
\<close>

definition update_sentence :: "nat \<Rightarrow> ai \<times> int \<Rightarrow> ai \<times> int" where
  "update_sentence i st =
     (let st1 = mark_safe_cells (sorted_list_of_set (known_safes (knowledge (fst st) ! i))) st
      in mark_mine_cells (sorted_list_of_set (known_mines (knowledge (fst st1) ! i))) st1)"

text \<open>
  One pass of the \<open>while\<close> loop of \<open>update\<close>, started with \<open>counter = 0\<close>. The last two
  loops run over \<open>self.safes\<close> and \<open>self.mines\<close> themselves; the calls add to them only
  the cell in hand, which is in the set already, so the set iterated does not change.
\<close>

definition update_pass :: "ai \<Rightarrow> ai \<times> int" where
  "update_pass kb =
     (let st1 = fold update_sentence [0..<length (knowledge kb)] (kb, 0);
          st2 = mark_safe_cells (sorted_list_of_set (safes (fst st1))) st1
      in mark_mine_cells (sorted_list_of_set (mines (fst st2))) st2)"

text \<open>\<open>counter = 1; while counter: counter = 0; ...\<close>: the first pass always runs, and the
  loop goes on as long as a pass counted a change. \<open>None\<close> is a loop that never ends.\<close>

partial_function (option) update :: "ai \<Rightarrow> ai option" where
  "update kb =
     (let (kb', counter) = update_pass kb
      in if counter \<noteq> 0 then update kb' else Some kb')"

declare update.simps [code]

section \<open>Inference\<close>

definition inference_inner ::
  "sentence list \<Rightarrow> sentence \<Rightarrow> sentence \<Rightarrow> sentence list \<times> sentence list
     \<Rightarrow> sentence list \<times> sentence list" where
  "inference_inner ks s1 s2 st =
     (let (new_data, trash) = st in
      if cells s2 = {} then (new_data, trash @ [s2])
      else if s1 \<noteq> s2 then
        (if cells s2 \<subseteq> cells s1 then
           (let diff = \<lparr>cells = cells s1 - cells s2, count = count s1 - count s2\<rparr>
            in if diff \<notin> set ks then (new_data @ [diff], trash) else (new_data, trash))
         else (new_data, trash))
      else (new_data, trash))"

definition inference_outer ::
  "sentence list \<Rightarrow> sentence \<Rightarrow> sentence list \<times> sentence list
     \<Rightarrow> sentence list \<times> sentence list" where
  "inference_outer ks s1 st =
     (let (new_data, trash) = st in
      if cells s1 = {} then (new_data, trash @ [s1])
      else fold (inference_inner ks s1) ks (new_data, trash))"

definition inference :: "ai \<Rightarrow> ai \<times> sentence list" where
  "inference kb =
     (let (new_data, trash) = fold (inference_outer (knowledge kb)) (knowledge kb) ([], [])
      in (kb\<lparr>knowledge := filter (\<lambda>x. x \<notin> set trash) (knowledge kb)\<rparr>, new_data))"

section \<open>\<open>add_knowledge\<close>\<close>

definition friends :: "ai \<Rightarrow> cell \<Rightarrow> cell set" where
  "friends kb cell =
     (let (x, y) = cell in
      set [(i, j). i \<leftarrow> [max 0 (x - 1)..min (x + 2) (height kb) - 1],
                   j \<leftarrow> [max 0 (y - 1)..min (y + 2) (width kb) - 1],
                   (i, j) \<noteq> (x, y)])"

partial_function (option) add_knowledge_loop :: "ai \<Rightarrow> sentence list \<Rightarrow> ai option" where
  "add_knowledge_loop kb new_data =
     (if new_data \<noteq> [] then
        Option.bind (update (kb\<lparr>knowledge := knowledge kb @ new_data\<rparr>))
          (\<lambda>kb1. let (kb2, new_data') = inference kb1 in add_knowledge_loop kb2 new_data')
      else Some kb)"

declare add_knowledge_loop.simps [code]

definition add_knowledge :: "ai \<Rightarrow> cell \<Rightarrow> int \<Rightarrow> ai option" where
  "add_knowledge kb cell n =
     (let kb1 = fst (mark_safe (kb\<lparr>moves_made := insert cell (moves_made kb)\<rparr>) cell);
          kb2 = kb1\<lparr>knowledge := knowledge kb1 @ [\<lparr>cells = friends kb1 cell, count = n\<rparr>]\<rparr>
      in Option.bind (update kb2)
           (\<lambda>kb3. let (kb4, new_data) = inference kb3 in add_knowledge_loop kb4 new_data))"

section \<open>Choosing a move\<close>

text \<open>
  \<open>make_safe_move\<close> returns the first cell of \<open>self.safes\<close>, in the order Python iterates
  the set, that is not in \<open>self.moves_made\<close>. The result depends on that order, which
  Python leaves open, so the order is an argument: any list of the cells of \<open>safes\<close>.
\<close>

fun make_safe_move_scan :: "cell list \<Rightarrow> cell set \<Rightarrow> cell option" where
  "make_safe_move_scan [] made = None"
| "make_safe_move_scan (x # xs) made =
     (if x \<notin> made then Some x else make_safe_move_scan xs made)"

definition make_safe_move :: "cell list \<Rightarrow> ai \<Rightarrow> cell option" where
  "make_safe_move order kb = make_safe_move_scan order (moves_made kb)"

definition make_random_move :: "ai \<Rightarrow> cell option" where
  "make_random_move kb =
     List.find (\<lambda>temp. temp \<notin> mines kb \<and> temp \<notin> moves_made kb)
       (List.product [0..height kb - 1] [0..width kb - 1])"

section \<open>Vocabulary of the proofs\<close>

text \<open>Removing a set of cells from a sentence, as safe cells and as mines, and the number
  of memberships a set of cells has in a list of sentences.\<close>

definition strike_safe :: "cell set \<Rightarrow> sentence \<Rightarrow> sentence" where
  "strike_safe S s = s\<lparr>cells := cells s - S\<rparr>"

definition strike_mine :: "cell set \<Rightarrow> sentence \<Rightarrow> sentence" where
  "strike_mine S s = s\<lparr>cells := cells s - S, count := count s - int (card (cells s \<inter> S))\<rparr>"

definition hits :: "cell set \<Rightarrow> sentence list \<Rightarrow> int" where
  "hits S ks = (\<Sum>s\<leftarrow>ks. int (card (cells s \<inter> S)))"

definition safe_step :: "cell set \<Rightarrow> ai \<times> int \<Rightarrow> ai \<times> int" where
  "safe_step S st =
     ((fst st)\<lparr>safes := safes (fst st) \<union> S,
               knowledge := map (strike_safe S) (knowledge (fst st))\<rparr>,
      snd st + hits S (knowledge (fst st)))"

definition mine_step :: "cell set \<Rightarrow> ai \<times> int \<Rightarrow> ai \<times> int" where
  "mine_step S st =
     ((fst st)\<lparr>mines := mines (fst st) \<union> S,
               knowledge := map (strike_mine S) (knowledge (fst st))\<rparr>,
      snd st + hits S (knowledge (fst st)))"

text \<open>The cells a loop over the set \<open>S\<close> visits.\<close>

definition visited :: "cell set \<Rightarrow> cell set" where
  "visited S = set (sorted_list_of_set S)"

text \<open>The potential of the propagation: the cell memberships of all sentences.\<close>

definition memberships :: "ai \<Rightarrow> nat" where
  "memberships kb = (\<Sum>s\<leftarrow>knowledge kb. card (cells s))"

text \<open>Python sets and lists are finite.\<close>

definition kb_finite :: "ai \<Rightarrow> bool" where
  "kb_finite kb \<longleftrightarrow>
     finite (safes kb) \<and> finite (mines kb) \<and> (\<forall>s \<in> set (knowledge kb). finite (cells s))"

text \<open>The state after \<open>n\<close> passes of the loop of \<open>update\<close>.\<close>

fun passes :: "nat \<Rightarrow> ai \<Rightarrow> ai" where
  "passes 0 kb = kb"
| "passes (Suc n) kb = passes n (fst (update_pass kb))"

text \<open>No sentence that still has cells is saturated, and no sentence holds a cell that is
  known to be safe or a mine.\<close>

definition unsaturated :: "ai \<Rightarrow> bool" where
  "unsaturated kb \<longleftrightarrow>
     (\<forall>s \<in> set (knowledge kb). cells s \<noteq> {} \<longrightarrow> count s \<noteq> 0 \<and> int (card (cells s)) \<noteq> count s)"

definition clean :: "ai \<Rightarrow> bool" where
  "clean kb \<longleftrightarrow> (\<forall>s \<in> set (knowledge kb). cells s \<inter> (safes kb \<union> mines kb) = {})"

text \<open>The counter never goes down, and as long as it has not gone up the state is the
  one the pass started from.\<close>

definition still :: "ai \<times> int \<Rightarrow> ai \<times> int \<Rightarrow> bool" where
  "still st0 st \<longleftrightarrow> snd st0 \<le> snd st \<and> (snd st = snd st0 \<longrightarrow> st = st0)"

text \<open>A state to run the propagation on, and the state it ends in.\<close>

definition example_kb :: ai where
  "example_kb = (MinesweeperAI 3 3)\<lparr>knowledge :=
     [\<lparr>cells = {(0, 1), (1, 0), (1, 1)}, count = 0\<rparr>, \<lparr>cells = {(1, 1), (1, 2)}, count = 1\<rparr>]\<rparr>"

definition example_kb_updated :: ai where
  "example_kb_updated = (MinesweeperAI 3 3)\<lparr>safes := {(0, 1), (1, 0), (1, 1)}, mines := {(1, 2)},
     knowledge := [\<lparr>cells = {}, count = 0\<rparr>, \<lparr>cells = {}, count = 0\<rparr>]\<rparr>"

text \<open>
  The statement derived from an ordered pair, the pairs the inference derives from, and
  the derived statements in the order of the two loops.
\<close>

definition derive :: "sentence \<Rightarrow> sentence \<Rightarrow> sentence" where
  "derive A B = \<lparr>cells = cells A - cells B, count = count A - count B\<rparr>"

definition qualifies :: "sentence \<Rightarrow> sentence \<Rightarrow> bool" where
  "qualifies A B \<longleftrightarrow> cells A \<noteq> {} \<and> cells B \<noteq> {} \<and> A \<noteq> B \<and> cells B \<subseteq> cells A"

definition candidates :: "sentence list \<Rightarrow> sentence list" where
  "candidates ks = [derive A B. A \<leftarrow> ks, B \<leftarrow> ks, qualifies A B]"

text \<open>The list \<open>trash\<close> after the loop of \<open>inference\<close> over the sentences \<open>xs\<close>.\<close>

definition trash_of :: "sentence list \<Rightarrow> sentence list \<Rightarrow> sentence list" where
  "trash_of ks xs =
     concat (map (\<lambda>s1. if cells s1 = {} then [s1] else filter (\<lambda>s. cells s = {}) ks) xs)"

text \<open>
  The inference as the specification words it: a derived statement is emitted if it is
  equal to no statement of the knowledge and has not been produced earlier in the pass.
\<close>

fun emit_new :: "sentence list \<Rightarrow> sentence list \<Rightarrow> sentence list \<Rightarrow> sentence list" where
  "emit_new ks [] out = out"
| "emit_new ks (d # ds) out =
     emit_new ks ds (if d \<in> set ks \<or> d \<in> set out then out else out @ [d])"

definition inference_spec :: "sentence list \<Rightarrow> sentence list" where
  "inference_spec ks = emit_new ks (candidates ks) []"

text \<open>A state in which two pairs of sentences derive the same statement.\<close>

definition dup_kb :: ai where
  "dup_kb = (MinesweeperAI 1 6)\<lparr>knowledge :=
     [\<lparr>cells = {(0, 0), (0, 1), (0, 2)}, count = 2\<rparr>, \<lparr>cells = {(0, 0), (0, 1)}, count = 1\<rparr>,
      \<lparr>cells = {(0, 2), (0, 3), (0, 4)}, count = 2\<rparr>, \<lparr>cells = {(0, 3), (0, 4)}, count = 1\<rparr>]\<rparr>"

section \<open>The board\<close>

text \<open>
  Class \<open>Minesweeper\<close>, as far as the player's inputs depend on it: the size and the
  board, a list of rows of booleans. (Its set \<open>mines\<close> holds the cells whose board entry
  is true; \<open>mines_found\<close> belongs to the driver.)
\<close>

record minesweeper =
  ms_height :: int
  ms_width :: int
  board :: "bool list list"

text \<open>The board \<open>__init__\<close> builds has \<open>height\<close> rows of \<open>width\<close> entries.\<close>

definition wf_board :: "minesweeper \<Rightarrow> bool" where
  "wf_board g \<longleftrightarrow>
     0 \<le> ms_height g \<and> 0 \<le> ms_width g \<and> int (length (board g)) = ms_height g \<and>
     list_all (\<lambda>row. int (length row) = ms_width g) (board g)"

definition in_bounds :: "minesweeper \<Rightarrow> cell \<Rightarrow> bool" where
  "in_bounds g cell \<longleftrightarrow>
     0 \<le> fst cell \<and> fst cell < ms_height g \<and> 0 \<le> snd cell \<and> snd cell < ms_width g"

text \<open>\<open>is_mine\<close> reads \<open>self.board[i][j]\<close>. It is only used on cells in bounds, where the
  two indices are in range.\<close>

definition is_mine :: "minesweeper \<Rightarrow> cell \<Rightarrow> bool" where
  "is_mine g cell = board g ! nat (fst cell) ! nat (snd cell)"

definition nearby_mines :: "minesweeper \<Rightarrow> cell \<Rightarrow> int" where
  "nearby_mines g cell =
     int (length [(i, j). i \<leftarrow> [fst cell - 1..fst cell + 1], j \<leftarrow> [snd cell - 1..snd cell + 1],
                  (i, j) \<noteq> cell \<and>
                  (0 \<le> i \<and> i < ms_height g \<and> 0 \<le> j \<and> j < ms_width g) \<and>
                  board g ! nat i ! nat j])"

text \<open>The cells of the board that hold a mine.\<close>

definition mine_cells :: "minesweeper \<Rightarrow> cell set" where
  "mine_cells g = {cell. in_bounds g cell \<and> is_mine g cell}"

text \<open>
  The neighbours of a cell as the specification words them: the cells of the grid next
  to it, the cell itself excluded.
\<close>

definition neighbors :: "int \<Rightarrow> int \<Rightarrow> cell \<Rightarrow> cell set" where
  "neighbors h w cell =
     {(i, j). 0 \<le> i \<and> i < h \<and> 0 \<le> j \<and> j < w \<and>
              \<bar>i - fst cell\<bar> \<le> 1 \<and> \<bar>j - snd cell\<bar> \<le> 1 \<and> (i, j) \<noteq> cell}"

section \<open>The states a driver can observe\<close>

text \<open>
  The states of the player after its constructor and any number of the calls that change
  it: \<open>add_knowledge\<close> (when it returns), \<open>mark_safe\<close> and \<open>mark_mine\<close>, and also
  \<open>update\<close> and \<open>inference\<close>, which \<open>add_knowledge\<close> uses and a driver could call as well.
  \<open>make_safe_move\<close> and \<open>make_random_move\<close> change nothing.
\<close>

inductive reachable :: "ai \<Rightarrow> bool" where
  start: "reachable (MinesweeperAI h w)"
| add: "reachable kb \<Longrightarrow> add_knowledge kb cell n = Some kb' \<Longrightarrow> reachable kb'"
| safe: "reachable kb \<Longrightarrow> reachable (fst (mark_safe kb cell))"
| mine: "reachable kb \<Longrightarrow> reachable (fst (mark_mine kb cell))"
| propagate: "reachable kb \<Longrightarrow> update kb = Some kb' \<Longrightarrow> reachable kb'"
| infer: "reachable kb \<Longrightarrow> reachable (fst (inference kb))"

text \<open>
  The same with truthful inputs on the board \<open>g\<close>: the player is built with the size of
  the board, \<open>add_knowledge\<close> is called with a cell of the board that holds no mine and
  with the count \<open>nearby_mines\<close> gives for it, \<open>mark_safe\<close> with a cell that holds no mine
  and \<open>mark_mine\<close> with a cell that holds one. \<open>update\<close> and \<open>inference\<close> take no input.
\<close>

inductive plays :: "minesweeper \<Rightarrow> ai \<Rightarrow> bool" for g :: minesweeper where
  start: "wf_board g \<Longrightarrow> plays g (MinesweeperAI (ms_height g) (ms_width g))"
| reveal: "plays g kb \<Longrightarrow> in_bounds g cell \<Longrightarrow> \<not> is_mine g cell \<Longrightarrow>
     add_knowledge kb cell (nearby_mines g cell) = Some kb' \<Longrightarrow> plays g kb'"
| safe: "plays g kb \<Longrightarrow> cell \<notin> mine_cells g \<Longrightarrow> plays g (fst (mark_safe kb cell))"
| mine: "plays g kb \<Longrightarrow> cell \<in> mine_cells g \<Longrightarrow> plays g (fst (mark_mine kb cell))"
| propagate: "plays g kb \<Longrightarrow> update kb = Some kb' \<Longrightarrow> plays g kb'"
| infer: "plays g kb \<Longrightarrow> plays g (fst (inference kb))"

text \<open>What the player knows is true of the board.\<close>

definition sound :: "minesweeper \<Rightarrow> ai \<Rightarrow> bool" where
  "sound g kb \<longleftrightarrow>
     kb_finite kb \<and> height kb = ms_height g \<and> width kb = ms_width g \<and>
     safes kb \<inter> mine_cells g = {} \<and> mines kb \<subseteq> mine_cells g \<and>
     (\<forall>s \<in> set (knowledge kb). count s = int (card (cells s \<inter> mine_cells g)))"

text \<open>A board of two rows and two columns with one mine, at \<open>(1, 0)\<close>, and the states
  of the player after it has revealed \<open>(0, 0)\<close> and then \<open>(0, 1)\<close>.\<close>

definition small_board :: minesweeper where
  "small_board = \<lparr>ms_height = 2, ms_width = 2, board = [[False, False], [True, False]]\<rparr>"

definition small_kb1 :: ai where
  "small_kb1 = \<lparr>height = 2, width = 2, moves_made = {(0, 0)}, mines = {}, safes = {(0, 0)},
     knowledge = [\<lparr>cells = {(0, 1), (1, 0), (1, 1)}, count = 1\<rparr>]\<rparr>"

definition small_kb2 :: ai where
  "small_kb2 = \<lparr>height = 2, width = 2, moves_made = {(0, 0), (0, 1)}, mines = {},
     safes = {(0, 0), (0, 1)},
     knowledge = [\<lparr>cells = {(1, 0), (1, 1)}, count = 1\<rparr>, \<lparr>cells = {(1, 0), (1, 1)}, count = 1\<rparr>]\<rparr>"

text \<open>The state after the player has then revealed \<open>(1, 1)\<close> as well: it has found the
  mine.\<close>

definition small_kb3 :: ai where
  "small_kb3 = \<lparr>height = 2, width = 2, moves_made = {(0, 0), (0, 1), (1, 1)},
     mines = {(1, 0)}, safes = {(0, 0), (0, 1), (1, 1)}, knowledge = []\<rparr>"

section \<open>\<open>add_knowledge\<close> in two steps\<close>

text \<open>
  The state in which \<open>add_knowledge\<close> first calls \<open>update\<close>, as the specification words
  it: the cell is a move made and a safe cell, it is removed from the sentences, and the
  sentence of all its neighbours with the count as given is appended.
\<close>

definition observed :: "ai \<Rightarrow> cell \<Rightarrow> int \<Rightarrow> ai" where
  "observed kb cell n =
     kb\<lparr>moves_made := insert cell (moves_made kb),
        safes := insert cell (safes kb),
        knowledge := map (\<lambda>s. s\<lparr>cells := cells s - {cell}\<rparr>) (knowledge kb) @
                     [\<lparr>cells = neighbors (height kb) (width kb) cell, count = n\<rparr>]\<rparr>"

text \<open>The rest of \<open>add_knowledge\<close>: \<open>update\<close>, \<open>inference\<close>, and the loop.\<close>

definition settle :: "ai \<Rightarrow> ai option" where
  "settle kb =
     Option.bind (update kb)
       (\<lambda>kb3. let (kb4, new_data) = inference kb3 in add_knowledge_loop kb4 new_data)"

text \<open>The state and the new statements at the head of the loop of \<open>add_knowledge\<close>:
  what \<open>inference\<close> returned on a state that the propagation had settled.\<close>

definition propagated :: "ai \<Rightarrow> sentence list \<Rightarrow> bool" where
  "propagated kb new_data \<longleftrightarrow>
     (\<exists>k. kb_finite k \<and> unsaturated k \<and> clean k \<and> inference k = (kb, new_data))"

text \<open>
  The states of a player for a board of one row and four columns that has been told
  100 and then 107 for the cell \<open>(0, 1)\<close>, and what stays true of its state while the next
  call runs: the sentences have their cells among \<open>(0, 0)\<close> and \<open>(0, 2)\<close>, with counts that
  are never 0 nor the number of cells, the two contradictory sentences are there, and so
  is a sentence on \<open>{(0, 2)}\<close>.
\<close>

definition stuck_kb1 :: ai where
  "stuck_kb1 = \<lparr>height = 1, width = 4, moves_made = {(0, 1)}, mines = {}, safes = {(0, 1)},
     knowledge = [\<lparr>cells = {(0, 0), (0, 2)}, count = 100\<rparr>]\<rparr>"

definition stuck_kb2 :: ai where
  "stuck_kb2 = \<lparr>height = 1, width = 4, moves_made = {(0, 1)}, mines = {}, safes = {(0, 1)},
     knowledge = [\<lparr>cells = {(0, 0), (0, 2)}, count = 100\<rparr>,
                  \<lparr>cells = {(0, 0), (0, 2)}, count = 107\<rparr>]\<rparr>"

definition stuck_shape :: "sentence \<Rightarrow> bool" where
  "stuck_shape s \<longleftrightarrow>
     cells s = {} \<or>
     cells s = {(0, 0)} \<and> count s mod 7 = 6 \<or>
     cells s = {(0, 2)} \<and> count s mod 7 = 3 \<or>
     cells s = {(0, 0), (0, 2)} \<and> (count s = 100 \<or> count s = 107)"

definition stuck :: "ai \<Rightarrow> bool" where
  "stuck k \<longleftrightarrow>
     safes k \<inter> {(0, 0), (0, 2)} = {} \<and> mines k \<inter> {(0, 0), (0, 2)} = {} \<and>
     list_all stuck_shape (knowledge k) \<and>
     \<lparr>cells = {(0, 0), (0, 2)}, count = 100\<rparr> \<in> set (knowledge k) \<and>
     \<lparr>cells = {(0, 0), (0, 2)}, count = 107\<rparr> \<in> set (knowledge k) \<and>
     (\<exists>x. \<lparr>cells = {(0, 2)}, count = x\<rparr> \<in> set (knowledge k))"

text \<open>
  The measure of the loop of \<open>add_knowledge\<close> under truthful inputs: the cells that occur
  in a sentence, the non-empty cell sets that sentences have, and how many more of those
  there could be (counted so that losing a cell outweighs any number of cell sets).
\<close>

definition occupied :: "ai \<Rightarrow> cell set" where
  "occupied k = \<Union> (cells ` set (knowledge k))"

definition shapes :: "ai \<Rightarrow> cell set set" where
  "shapes k = cells ` set (knowledge k) - {{}}"

definition slack :: "ai \<Rightarrow> nat" where
  "slack k = 2 * 2 ^ card (occupied k) - card (shapes k)"

section \<open>Marking one cell\<close>

lemma strike_safe_single:
  "fst (sentence_mark_safe s c) = strike_safe {c} s"
  "snd (sentence_mark_safe s c) = int (card (cells s \<inter> {c}))"
  by (simp_all add: sentence_mark_safe_def strike_safe_def)

lemma strike_mine_single:
  "fst (sentence_mark_mine s c) = strike_mine {c} s"
  "snd (sentence_mark_mine s c) = int (card (cells s \<inter> {c}))"
  by (simp_all add: sentence_mark_mine_def strike_mine_def)

lemma mark_safe_loop_eq:
  "mark_safe_loop ks c = (map (strike_safe {c}) ks, hits {c} ks)"
proof (induction ks)
  case Nil
  show ?case by (simp add: hits_def)
next
  case (Cons s ks)
  have "sentence_mark_safe s c = (strike_safe {c} s, int (card (cells s \<inter> {c})))"
    using strike_safe_single [of s c] by (simp add: prod_eq_iff)
  with Cons show ?case by (simp add: hits_def)
qed

lemma mark_mine_loop_eq:
  "mark_mine_loop ks c = (map (strike_mine {c}) ks, hits {c} ks)"
proof (induction ks)
  case Nil
  show ?case by (simp add: hits_def)
next
  case (Cons s ks)
  have "sentence_mark_mine s c = (strike_mine {c} s, int (card (cells s \<inter> {c})))"
    using strike_mine_single [of s c] by (simp add: prod_eq_iff)
  with Cons show ?case by (simp add: hits_def)
qed

lemma mark_safe_eq: "mark_safe kb c = safe_step {c} (kb, 0)"
  by (simp add: mark_safe_def mark_safe_loop_eq safe_step_def)

lemma mark_mine_eq: "mark_mine kb c = mine_step {c} (kb, 0)"
  by (simp add: mark_mine_def mark_mine_loop_eq mine_step_def)

section \<open>Frame of the marking operations\<close>

text \<open>
  Claim C10. For every cell \<open>c\<close> and every state, \<open>mark_safe\<close> of the player leaves the
  mines and the moves made unchanged and changes each sentence only by removing \<open>c\<close> from
  its cells, the count staying as it is; \<open>mark_mine\<close> leaves the safes and the moves made
  unchanged and changes a sentence only if it holds \<open>c\<close>, by removing \<open>c\<close> and taking one
  off its count.
\<close>

theorem mark_frame:
  "mines (fst (mark_safe kb c)) = mines kb \<and>
   moves_made (fst (mark_safe kb c)) = moves_made kb \<and>
   knowledge (fst (mark_safe kb c)) = map (\<lambda>s. s\<lparr>cells := cells s - {c}\<rparr>) (knowledge kb) \<and>
   safes (fst (mark_mine kb c)) = safes kb \<and>
   moves_made (fst (mark_mine kb c)) = moves_made kb \<and>
   knowledge (fst (mark_mine kb c)) =
     map (\<lambda>s. if c \<in> cells s then s\<lparr>cells := cells s - {c}, count := count s - 1\<rparr> else s)
       (knowledge kb)"
proof -
  have 1: "strike_safe {c} = (\<lambda>s. s\<lparr>cells := cells s - {c}\<rparr>)"
    by (rule ext) (simp add: strike_safe_def)
  have 2: "strike_mine {c} =
      (\<lambda>s. if c \<in> cells s then s\<lparr>cells := cells s - {c}, count := count s - 1\<rparr> else s)"
    by (rule ext) (simp add: strike_mine_def)
  show ?thesis
    by (simp add: mark_safe_eq mark_mine_eq safe_step_def mine_step_def 1 2)
qed

section \<open>The safe move\<close>

lemma make_safe_move_scan_None:
  "make_safe_move_scan xs made = None \<longleftrightarrow> set xs - made = {}"
  by (induction xs) auto

lemma make_safe_move_scan_Some:
  "make_safe_move_scan xs made = Some c \<Longrightarrow> c \<in> set xs - made"
  by (induction xs) (auto split: if_splits)

text \<open>
  Claim C9. In whatever order the safes are iterated, \<open>make_safe_move\<close> returns \<open>None\<close>
  exactly when no safe cell is left that is not a move made, and a cell it returns is a
  safe cell that is not a move made.
\<close>

theorem make_safe_move_correct:
  "set order = safes kb \<Longrightarrow>
     (make_safe_move order kb = None \<longleftrightarrow> safes kb - moves_made kb = {}) \<and>
     (\<forall>c. make_safe_move order kb = Some c \<longrightarrow> c \<in> safes kb \<and> c \<notin> moves_made kb)"
  using make_safe_move_scan_None [of order "moves_made kb"]
    make_safe_move_scan_Some [of order "moves_made kb"]
  by (auto simp: make_safe_move_def)

theorem make_safe_move_correct_witness:
  "set [(0, 0), (0, 1)] = safes ((MinesweeperAI 2 2)\<lparr>safes := {(0, 0), (0, 1)}, moves_made := {(0, 0)}\<rparr>) \<and>
   make_safe_move [(0, 0), (0, 1)]
     ((MinesweeperAI 2 2)\<lparr>safes := {(0, 0), (0, 1)}, moves_made := {(0, 0)}\<rparr>) = Some (0, 1) \<and>
   (0, 1) \<in> safes ((MinesweeperAI 2 2)\<lparr>safes := {(0, 0), (0, 1)}, moves_made := {(0, 0)}\<rparr>) \<and>
   (0, 1) \<notin> moves_made ((MinesweeperAI 2 2)\<lparr>safes := {(0, 0), (0, 1)}, moves_made := {(0, 0)}\<rparr>)"
  using make_safe_move_correct [of "[(0, 0), (0, 1)]"
      "(MinesweeperAI 2 2)\<lparr>safes := {(0, 0), (0, 1)}, moves_made := {(0, 0)}\<rparr>"]
  by (simp add: MinesweeperAI_def make_safe_move_def)

section \<open>The loops over cells in closed form\<close>

lemma cells_strike [simp]:
  "cells (strike_safe S s) = cells s - S"
  "cells (strike_mine S s) = cells s - S"
  "count (strike_safe S s) = count s"
  "count (strike_mine S s) = count s - int (card (cells s \<inter> S))"
  by (simp_all add: strike_safe_def strike_mine_def)

lemma strike_empty [simp]: "strike_safe {} s = s" "strike_mine {} s = s"
  by (simp_all add: strike_safe_def strike_mine_def)

lemma map_strike_empty [simp]:
  "map (strike_safe {}) ks = ks" "map (strike_mine {}) ks = ks"
  by (simp_all add: map_idI)

lemma hits_empty [simp]: "hits {} ks = 0"
  by (induction ks) (simp_all add: hits_def)

lemma hits_nonneg: "0 \<le> hits S ks"
  by (induction ks) (simp_all add: hits_def)

lemma card_split:
  assumes "finite S" "c \<notin> S"
  shows "card (A \<inter> insert c S) = card (A \<inter> {c}) + card ((A - {c}) \<inter> S)"
proof -
  have "A \<inter> insert c S = (A \<inter> {c}) \<union> ((A - {c}) \<inter> S)"
    using assms by auto
  moreover have "(A \<inter> {c}) \<inter> ((A - {c}) \<inter> S) = {}"
    by auto
  moreover have "finite (A \<inter> {c})" "finite ((A - {c}) \<inter> S)"
    using assms by auto
  ultimately show ?thesis
    by (simp add: card_Un_disjoint)
qed

lemma strike_safe_insert:
  "strike_safe S (strike_safe {c} s) = strike_safe (insert c S) s"
  by (simp add: strike_safe_def) (metis Diff_insert2 Diff_insert)

lemma strike_mine_insert:
  assumes "finite S" "c \<notin> S"
  shows "strike_mine S (strike_mine {c} s) = strike_mine (insert c S) s"
proof -
  have "cells s - {c} - S = cells s - insert c S"
    by auto
  then show ?thesis
    using card_split [OF assms, of "cells s"] by (simp add: strike_mine_def)
qed

lemma hits_safe_insert:
  assumes "finite S" "c \<notin> S"
  shows "hits {c} ks + hits S (map (strike_safe {c}) ks) = hits (insert c S) ks"
  using card_split [OF assms] by (induction ks) (simp_all add: hits_def)

lemma hits_mine_insert:
  assumes "finite S" "c \<notin> S"
  shows "hits {c} ks + hits S (map (strike_mine {c}) ks) = hits (insert c S) ks"
  using card_split [OF assms] by (induction ks) (simp_all add: hits_def)

lemma mark_safe_cells_eq:
  "distinct cs \<Longrightarrow> mark_safe_cells cs st = safe_step (set cs) st"
proof (induction cs arbitrary: st)
  case Nil
  show ?case by (simp add: safe_step_def)
next
  case (Cons c cs)
  obtain kb n where st: "st = (kb, n)" by (cases st)
  from Cons.prems have d: "distinct cs" and c: "c \<notin> set cs" by simp_all
  have "mark_safe_cells (c # cs) st = mark_safe_cells cs (safe_step {c} (kb, n))"
    by (simp add: st mark_safe_eq safe_step_def)
  also have "\<dots> = safe_step (set cs) (safe_step {c} (kb, n))"
    by (rule Cons.IH [OF d])
  also have "\<dots> = safe_step (set (c # cs)) st"
    using hits_safe_insert [of "set cs" c "knowledge kb"] c
    by (simp add: st safe_step_def strike_safe_insert comp_def)
  finally show ?case .
qed

lemma mark_mine_cells_eq:
  "distinct cs \<Longrightarrow> mark_mine_cells cs st = mine_step (set cs) st"
proof (induction cs arbitrary: st)
  case Nil
  show ?case by (simp add: mine_step_def)
next
  case (Cons c cs)
  obtain kb n where st: "st = (kb, n)" by (cases st)
  from Cons.prems have d: "distinct cs" and c: "c \<notin> set cs" by simp_all
  have "mark_mine_cells (c # cs) st = mark_mine_cells cs (mine_step {c} (kb, n))"
    by (simp add: st mark_mine_eq mine_step_def)
  also have "\<dots> = mine_step (set cs) (mine_step {c} (kb, n))"
    by (rule Cons.IH [OF d])
  also have "\<dots> = mine_step (set (c # cs)) st"
    using hits_mine_insert [of "set cs" c "knowledge kb"] c
    by (simp add: st mine_step_def strike_mine_insert comp_def)
  finally show ?case .
qed

text \<open>The order in which a loop visits the cells of a set does not matter.\<close>

lemma mark_safe_cells_order:
  "distinct xs \<Longrightarrow> distinct ys \<Longrightarrow> set xs = set ys \<Longrightarrow>
     mark_safe_cells xs st = mark_safe_cells ys st"
  by (simp add: mark_safe_cells_eq)

lemma mark_mine_cells_order:
  "distinct xs \<Longrightarrow> distinct ys \<Longrightarrow> set xs = set ys \<Longrightarrow>
     mark_mine_cells xs st = mark_mine_cells ys st"
  by (simp add: mark_mine_cells_eq)

lemma visited_cases: "visited S = (if finite S then S else {})"
  by (simp add: visited_def sorted_list_of_set.fold_insort_key.infinite)

lemma update_sentence_eq:
  "update_sentence i st =
     (let st1 = safe_step (visited (known_safes (knowledge (fst st) ! i))) st
      in mine_step (visited (known_mines (knowledge (fst st1) ! i))) st1)"
  by (simp add: update_sentence_def mark_safe_cells_eq mark_mine_cells_eq visited_def)

lemma update_pass_eq:
  "update_pass kb =
     (let st1 = fold update_sentence [0..<length (knowledge kb)] (kb, 0);
          st2 = safe_step (visited (safes (fst st1))) st1
      in mine_step (visited (mines (fst st2))) st2)"
  by (simp add: update_pass_def mark_safe_cells_eq mark_mine_cells_eq visited_def)

section \<open>A rule for one pass of the propagation\<close>

lemma finite_visited [simp]: "finite (visited S)"
  by (simp add: visited_def)

lemma visited_subset: "visited S \<subseteq> S"
  by (simp add: visited_cases)

lemma length_safe_step [simp]:
  "length (knowledge (fst (safe_step S st))) = length (knowledge (fst st))"
  by (simp add: safe_step_def)

lemma length_mine_step [simp]:
  "length (knowledge (fst (mine_step S st))) = length (knowledge (fst st))"
  by (simp add: mine_step_def)

lemma length_update_sentence [simp]:
  "length (knowledge (fst (update_sentence i st))) = length (knowledge (fst st))"
  by (simp add: update_sentence_eq Let_def)

lemma update_sentence_rule:
  assumes J: "J st" and i: "i < length (knowledge (fst st))"
    and safe: "\<And>k n S. J (k, n) \<Longrightarrow> finite S \<Longrightarrow>
        S \<subseteq> safes k \<or> (\<exists>s \<in> set (knowledge k). S \<subseteq> cells s \<and> count s = 0) \<Longrightarrow>
        J (safe_step S (k, n))"
    and mine: "\<And>k n S. J (k, n) \<Longrightarrow> finite S \<Longrightarrow>
        S \<subseteq> mines k \<or> (\<exists>s \<in> set (knowledge k). S = cells s \<and> int (card (cells s)) = count s) \<Longrightarrow>
        J (mine_step S (k, n))"
  shows "J (update_sentence i st)"
proof -
  obtain k n where st: "st = (k, n)" by (cases st)
  define x where "x = knowledge k ! i"
  define S1 where "S1 = visited (known_safes x)"
  define st1 where "st1 = safe_step S1 (k, n)"
  define x1 where "x1 = knowledge (fst st1) ! i"
  define S2 where "S2 = visited (known_mines x1)"
  have x: "x \<in> set (knowledge k)"
    using i by (simp add: st x_def)
  have "S1 \<subseteq> safes k \<or> (\<exists>s \<in> set (knowledge k). S1 \<subseteq> cells s \<and> count s = 0)"
  proof (cases "count x = 0")
    case True
    then have "S1 \<subseteq> cells x"
      using visited_subset [of "known_safes x"] by (simp add: S1_def known_safes_def)
    with True x show ?thesis by blast
  next
    case False
    then have "S1 = {}"
      by (simp add: S1_def known_safes_def visited_cases)
    then show ?thesis by simp
  qed
  then have J1: "J st1"
    unfolding st1_def using J safe [of k n S1] by (simp add: st S1_def)
  obtain k1 n1 where st1: "st1 = (k1, n1)" by (cases st1)
  have "length (knowledge k1) = length (knowledge k)"
    using length_safe_step [of S1 "(k, n)"] by (simp add: st1_def [symmetric] st1)
  then have x1: "x1 \<in> set (knowledge k1)"
    using i by (simp add: x1_def st st1)
  have "S2 \<subseteq> mines k1 \<or>
      (\<exists>s \<in> set (knowledge k1). S2 = cells s \<and> int (card (cells s)) = count s)"
  proof (cases "int (card (cells x1)) = count x1 \<and> finite (cells x1)")
    case True
    then have "S2 = cells x1"
      by (simp add: S2_def known_mines_def visited_cases)
    with True x1 show ?thesis by blast
  next
    case False
    then have "S2 = {}"
      by (auto simp: S2_def known_mines_def visited_cases)
    then show ?thesis by simp
  qed
  then have "J (mine_step S2 st1)"
    using J1 mine [of k1 n1 S2] by (simp add: st1 S2_def)
  then show ?thesis
    by (simp add: update_sentence_eq Let_def st st1_def S1_def x_def S2_def x1_def)
qed

lemma fold_update_sentence_rule:
  assumes J: "J st" and i: "\<forall>i \<in> set xs. i < length (knowledge (fst st))"
    and safe: "\<And>k n S. J (k, n) \<Longrightarrow> finite S \<Longrightarrow>
        S \<subseteq> safes k \<or> (\<exists>s \<in> set (knowledge k). S \<subseteq> cells s \<and> count s = 0) \<Longrightarrow>
        J (safe_step S (k, n))"
    and mine: "\<And>k n S. J (k, n) \<Longrightarrow> finite S \<Longrightarrow>
        S \<subseteq> mines k \<or> (\<exists>s \<in> set (knowledge k). S = cells s \<and> int (card (cells s)) = count s) \<Longrightarrow>
        J (mine_step S (k, n))"
  shows "J (fold update_sentence xs st)"
  using J i
proof (induction xs arbitrary: st)
  case Nil
  then show ?case by simp
next
  case (Cons i xs)
  have "J (update_sentence i st)"
    using Cons.prems by (intro update_sentence_rule [where J = J] safe mine) simp_all
  then show ?case
    using Cons.prems by (simp add: Cons.IH)
qed

lemma length_fold_update_sentence [simp]:
  "length (knowledge (fst (fold update_sentence xs st))) = length (knowledge (fst st))"
  by (induction xs arbitrary: st) simp_all

lemma update_pass_rule:
  assumes J: "J (kb, 0)"
    and safe: "\<And>k n S. J (k, n) \<Longrightarrow> finite S \<Longrightarrow>
        S \<subseteq> safes k \<or> (\<exists>s \<in> set (knowledge k). S \<subseteq> cells s \<and> count s = 0) \<Longrightarrow>
        J (safe_step S (k, n))"
    and mine: "\<And>k n S. J (k, n) \<Longrightarrow> finite S \<Longrightarrow>
        S \<subseteq> mines k \<or> (\<exists>s \<in> set (knowledge k). S = cells s \<and> int (card (cells s)) = count s) \<Longrightarrow>
        J (mine_step S (k, n))"
  shows "J (update_pass kb)"
proof -
  define st1 where "st1 = fold update_sentence [0..<length (knowledge kb)] (kb, 0)"
  define st2 where "st2 = safe_step (visited (safes (fst st1))) st1"
  have 1: "J st1"
    unfolding st1_def using J
    by (intro fold_update_sentence_rule [where J = J] safe mine) simp_all
  have 2: "J st2"
    unfolding st2_def using 1 safe [of "fst st1" "snd st1" "visited (safes (fst st1))"]
    by (simp add: visited_subset)
  have "J (mine_step (visited (mines (fst st2))) st2)"
    using 2 mine [of "fst st2" "snd st2" "visited (mines (fst st2))"]
    by (simp add: visited_subset)
  then show ?thesis
    by (simp add: update_pass_eq Let_def st1_def st2_def)
qed

section \<open>The potential and the counter of a pass\<close>

lemma card_strike:
  assumes "finite A"
  shows "int (card (A - S)) + int (card (A \<inter> S)) = int (card A)"
proof -
  have "A = (A - S) \<union> (A \<inter> S)" "(A - S) \<inter> (A \<inter> S) = {}"
    by auto
  moreover have "finite (A - S)" "finite (A \<inter> S)"
    using assms by auto
  ultimately have "card A = card (A - S) + card (A \<inter> S)"
    by (metis card_Un_disjoint)
  then show ?thesis by simp
qed

lemma sum_list_strike:
  assumes "\<forall>s \<in> set ks. finite (cells s)"
  shows "int (\<Sum>s\<leftarrow>ks. card (cells s - S)) + hits S ks = int (\<Sum>s\<leftarrow>ks. card (cells s))"
  using assms
proof (induction ks)
  case Nil
  show ?case by (simp add: hits_def)
next
  case (Cons s ks)
  then show ?case
    using card_strike [of "cells s" S] by (simp add: hits_def)
qed

lemma memberships_safe_step:
  assumes "kb_finite k"
  shows "int (memberships (fst (safe_step S (k, n)))) + hits S (knowledge k) = int (memberships k)"
  using sum_list_strike [of "knowledge k" S] assms
  by (simp add: memberships_def safe_step_def kb_finite_def comp_def)

lemma memberships_mine_step:
  assumes "kb_finite k"
  shows "int (memberships (fst (mine_step S (k, n)))) + hits S (knowledge k) = int (memberships k)"
  using sum_list_strike [of "knowledge k" S] assms
  by (simp add: memberships_def mine_step_def kb_finite_def comp_def)

lemma kb_finite_safe_step:
  "kb_finite k \<Longrightarrow> finite S \<Longrightarrow> kb_finite (fst (safe_step S (k, n)))"
  by (auto simp: kb_finite_def safe_step_def)

lemma kb_finite_mine_step:
  "kb_finite k \<Longrightarrow> finite S \<Longrightarrow> kb_finite (fst (mine_step S (k, n)))"
  by (auto simp: kb_finite_def mine_step_def)

lemma snd_safe_step [simp]: "snd (safe_step S (k, n)) = n + hits S (knowledge k)"
  by (simp add: safe_step_def)

lemma snd_mine_step [simp]: "snd (mine_step S (k, n)) = n + hits S (knowledge k)"
  by (simp add: mine_step_def)

lemma update_pass_potential:
  assumes "kb_finite kb"
  shows "kb_finite (fst (update_pass kb)) \<and> 0 \<le> snd (update_pass kb) \<and>
    int (memberships (fst (update_pass kb))) + snd (update_pass kb) = int (memberships kb)"
proof -
  define J where "J = (\<lambda>st. kb_finite (fst st) \<and> 0 \<le> snd st \<and>
    int (memberships (fst st)) + snd st = int (memberships kb))"
  have "J (update_pass kb)"
  proof (rule update_pass_rule [where J = J])
    show "J (kb, 0)"
      using assms by (simp add: J_def)
  next
    fix k n and S :: "cell set"
    assume "J (k, n)" "finite S"
    then show "J (safe_step S (k, n))"
      using memberships_safe_step [of k S n] kb_finite_safe_step [of k S n] hits_nonneg [of S "knowledge k"]
      by (simp add: J_def)
  next
    fix k n and S :: "cell set"
    assume "J (k, n)" "finite S"
    then show "J (mine_step S (k, n))"
      using memberships_mine_step [of k S n] kb_finite_mine_step [of k S n] hits_nonneg [of S "knowledge k"]
      by (simp add: J_def)
  qed
  then show ?thesis by (simp add: J_def)
qed

lemma kb_finite_passes: "kb_finite kb \<Longrightarrow> kb_finite (passes n kb)"
  by (induction n arbitrary: kb) (simp_all add: update_pass_potential)

section \<open>Termination of the propagation\<close>

lemma update_unfold:
  "update kb = (if snd (update_pass kb) \<noteq> 0 then update (fst (update_pass kb))
                else Some (fst (update_pass kb)))"
  by (subst update.simps) (simp add: case_prod_beta)

lemma update_terminates:
  assumes "kb_finite kb"
  shows "\<exists>n \<le> memberships kb. update kb = Some (passes (Suc n) kb) \<and>
     snd (update_pass (passes n kb)) = 0 \<and> (\<forall>m < n. snd (update_pass (passes m kb)) \<noteq> 0)"
  using assms
proof (induction "memberships kb" arbitrary: kb rule: less_induct)
  case less
  show ?case
  proof (cases "snd (update_pass kb) = 0")
    case True
    then have "update kb = Some (passes (Suc 0) kb)"
      by (subst update_unfold) simp
    with True show ?thesis
      by (intro exI [of _ 0]) simp
  next
    case False
    define kb' where "kb' = fst (update_pass kb)"
    have fin: "kb_finite kb'" and lt: "memberships kb' < memberships kb"
      using update_pass_potential [OF less.prems] False by (simp_all add: kb'_def)
    from less.hyps [OF lt fin] obtain n where n: "n \<le> memberships kb'"
      "update kb' = Some (passes (Suc n) kb')"
      "snd (update_pass (passes n kb')) = 0"
      "\<forall>m < n. snd (update_pass (passes m kb')) \<noteq> 0"
      by blast
    have "update kb = Some (passes (Suc (Suc n)) kb)"
      using False n(2) by (subst update_unfold) (simp add: kb'_def)
    moreover have "snd (update_pass (passes (Suc n) kb)) = 0"
      using n(3) by (simp add: kb'_def)
    moreover have "\<forall>m < Suc n. snd (update_pass (passes m kb)) \<noteq> 0"
    proof (intro allI impI)
      fix m assume "m < Suc n"
      then show "snd (update_pass (passes m kb)) \<noteq> 0"
        using False n(4) by (cases m) (simp_all add: kb'_def)
    qed
    moreover have "Suc n \<le> memberships kb"
      using n(1) lt by simp
    ultimately show ?thesis
      by blast
  qed
qed

section \<open>A pass that counts nothing\<close>

lemma hits_zero:
  assumes "finite S"
  shows "hits S ks = 0 \<longleftrightarrow> (\<forall>s \<in> set ks. cells s \<inter> S = {})"
proof (induction ks)
  case Nil
  show ?case by (simp add: hits_def)
next
  case (Cons s ks)
  have "0 \<le> hits S ks"
    by (rule hits_nonneg)
  moreover have "hits S (s # ks) = int (card (cells s \<inter> S)) + hits S ks"
    by (simp add: hits_def)
  moreover have "card (cells s \<inter> S) = 0 \<longleftrightarrow> cells s \<inter> S = {}"
    using assms by simp
  ultimately show ?case
    using Cons.IH by auto
qed

lemma strike_disjoint:
  "cells s \<inter> S = {} \<Longrightarrow> strike_safe S s = s"
  "cells s \<inter> S = {} \<Longrightarrow> strike_mine S s = s"
  by (simp_all add: strike_safe_def strike_mine_def Diff_triv)

lemma map_strike_disjoint:
  "\<forall>s \<in> set ks. cells s \<inter> S = {} \<Longrightarrow> map (strike_safe S) ks = ks"
  "\<forall>s \<in> set ks. cells s \<inter> S = {} \<Longrightarrow> map (strike_mine S) ks = ks"
  by (simp_all add: map_idI strike_disjoint)

lemma safe_step_zero:
  assumes "finite S" "hits S (knowledge k) = 0"
    and "S \<subseteq> safes k \<or> (\<exists>s \<in> set (knowledge k). S \<subseteq> cells s \<and> P s)"
  shows "safe_step S (k, n) = (k, n)"
proof -
  have d: "\<forall>s \<in> set (knowledge k). cells s \<inter> S = {}"
    using assms(1,2) by (simp add: hits_zero)
  with assms(3) have "S \<subseteq> safes k"
    by auto
  then have "safes k \<union> S = safes k"
    by auto
  then show ?thesis
    using d assms(2) by (simp add: safe_step_def map_strike_disjoint)
qed

lemma mine_step_zero:
  assumes "finite S" "hits S (knowledge k) = 0"
    and "S \<subseteq> mines k \<or> (\<exists>s \<in> set (knowledge k). S = cells s \<and> P s)"
  shows "mine_step S (k, n) = (k, n)"
proof -
  have d: "\<forall>s \<in> set (knowledge k). cells s \<inter> S = {}"
    using assms(1,2) by (simp add: hits_zero)
  with assms(3) have "S \<subseteq> mines k"
    by auto
  then have "mines k \<union> S = mines k"
    by auto
  then show ?thesis
    using d assms(2) by (simp add: mine_step_def map_strike_disjoint)
qed

lemma still_safe_step:
  assumes "still st0 (k, n)" "finite S"
    and "S \<subseteq> safes k \<or> (\<exists>s \<in> set (knowledge k). S \<subseteq> cells s \<and> count s = 0)"
  shows "still st0 (safe_step S (k, n))"
proof -
  have h: "0 \<le> hits S (knowledge k)"
    by (rule hits_nonneg)
  show ?thesis
  proof (cases "hits S (knowledge k) = 0")
    case True
    then show ?thesis
      using assms safe_step_zero [OF assms(2) True assms(3), of n] by simp
  next
    case False
    then show ?thesis
      using assms(1) h by (simp add: still_def)
  qed
qed

lemma still_mine_step:
  assumes "still st0 (k, n)" "finite S"
    and "S \<subseteq> mines k \<or> (\<exists>s \<in> set (knowledge k). S = cells s \<and> int (card (cells s)) = count s)"
  shows "still st0 (mine_step S (k, n))"
proof -
  have h: "0 \<le> hits S (knowledge k)"
    by (rule hits_nonneg)
  show ?thesis
  proof (cases "hits S (knowledge k) = 0")
    case True
    then show ?thesis
      using assms mine_step_zero [OF assms(2) True assms(3), of n] by simp
  next
    case False
    then show ?thesis
      using assms(1) h by (simp add: still_def)
  qed
qed

lemma still_refl: "still st st"
  by (simp add: still_def)

lemma still_update_sentence:
  "i < length (knowledge (fst st)) \<Longrightarrow> still st (update_sentence i st)"
  by (rule update_sentence_rule [where J = "still st"];
      (rule still_refl | erule (2) still_safe_step | erule (2) still_mine_step | assumption))

lemma still_fold_update_sentence:
  "\<forall>i \<in> set xs. i < length (knowledge (fst st)) \<Longrightarrow> still st (fold update_sentence xs st)"
  by (rule fold_update_sentence_rule [where J = "still st"];
      (rule still_refl | erule (2) still_safe_step | erule (2) still_mine_step | assumption))

lemma still_update_pass: "still (kb, 0) (update_pass kb)"
  by (rule update_pass_rule [where J = "still (kb, 0)"];
      (rule still_refl | erule (2) still_safe_step | erule (2) still_mine_step))

lemma update_pass_zero: "snd (update_pass kb) = 0 \<Longrightarrow> fst (update_pass kb) = kb"
  using still_update_pass [of kb] by (simp add: still_def)

lemma fold_update_sentence_zero:
  assumes "\<forall>i \<in> set xs. i < length (knowledge kb)"
    and "snd (fold update_sentence xs (kb, 0)) = 0"
  shows "fold update_sentence xs (kb, 0) = (kb, 0) \<and>
     (\<forall>i \<in> set xs. update_sentence i (kb, 0) = (kb, 0))"
  using assms
proof (induction xs)
  case Nil
  show ?case by simp
next
  case (Cons i xs)
  define st where "st = update_sentence i (kb, 0)"
  have 1: "still (kb, 0) st"
    unfolding st_def using Cons.prems(1) by (intro still_update_sentence) simp
  have "still st (fold update_sentence xs st)"
    using Cons.prems(1) by (intro still_fold_update_sentence) (simp add: st_def)
  then have "snd st \<le> 0"
    using Cons.prems(2) by (simp add: still_def st_def)
  with 1 have st: "st = (kb, 0)"
    by (simp add: still_def)
  then show ?case
    using Cons by (simp add: st_def)
qed

lemma update_sentence_zero:
  assumes i: "i < length (knowledge kb)" and fin: "finite (cells (knowledge kb ! i))"
    and z: "snd (update_sentence i (kb, 0)) = 0"
    and ne: "cells (knowledge kb ! i) \<noteq> {}"
  shows "count (knowledge kb ! i) \<noteq> 0 \<and> int (card (cells (knowledge kb ! i))) \<noteq> count (knowledge kb ! i)"
proof -
  define x where "x = knowledge kb ! i"
  define S1 where "S1 = visited (known_safes x)"
  define st1 where "st1 = safe_step S1 (kb, 0)"
  define S2 where "S2 = visited (known_mines (knowledge (fst st1) ! i))"
  have x: "x \<in> set (knowledge kb)"
    using i by (simp add: x_def)
  have eq: "update_sentence i (kb, 0) = mine_step S2 st1"
    by (simp add: update_sentence_eq Let_def S2_def st1_def S1_def x_def)
  have "snd st1 + hits S2 (knowledge (fst st1)) = 0"
    using z by (simp add: eq mine_step_def)
  moreover have "0 \<le> hits S2 (knowledge (fst st1))" "0 \<le> hits S1 (knowledge kb)"
    by (rule hits_nonneg)+
  moreover have s1: "snd st1 = hits S1 (knowledge kb)"
    by (simp add: st1_def)
  ultimately have h1: "hits S1 (knowledge kb) = 0" and h2: "hits S2 (knowledge (fst st1)) = 0"
    by simp_all
  have d1: "cells x \<inter> S1 = {}"
    using h1 x by (simp add: hits_zero S1_def)
  have c: "count x \<noteq> 0"
  proof
    assume "count x = 0"
    then have "S1 = cells x"
      using fin by (simp add: S1_def known_safes_def visited_cases x_def)
    with d1 ne show False by (simp add: x_def)
  qed
  then have "S1 = {}"
    by (simp add: S1_def known_safes_def visited_cases)
  then have "st1 = (kb, 0)"
    by (simp add: st1_def safe_step_def)
  then have d2: "cells x \<inter> S2 = {}" and S2: "S2 = visited (known_mines x)"
    using h2 x by (simp_all add: hits_zero S2_def x_def)
  have "int (card (cells x)) \<noteq> count x"
  proof
    assume "int (card (cells x)) = count x"
    then have "S2 = cells x"
      using fin by (simp add: S2 known_mines_def visited_cases x_def)
    with d2 ne show False by (simp add: x_def)
  qed
  with c show ?thesis by (simp add: x_def)
qed

lemma update_pass_zero_settled:
  assumes fin: "kb_finite kb" and z: "snd (update_pass kb) = 0"
  shows "unsaturated kb \<and> clean kb"
proof -
  define st1 where "st1 = fold update_sentence [0..<length (knowledge kb)] (kb, 0)"
  define st2 where "st2 = safe_step (visited (safes (fst st1))) st1"
  have eq: "update_pass kb = mine_step (visited (mines (fst st2))) st2"
    by (simp add: update_pass_eq Let_def st1_def st2_def)
  have 1: "still (kb, 0) st1"
    unfolding st1_def by (intro still_fold_update_sentence) simp
  have 2: "still st1 st2"
    unfolding st2_def
    using still_safe_step [of st1 "fst st1" "snd st1" "visited (safes (fst st1))"]
    by (simp add: still_refl visited_subset)
  have 3: "still st2 (update_pass kb)"
    unfolding eq
    using still_mine_step [of st2 "fst st2" "snd st2" "visited (mines (fst st2))"]
    by (simp add: still_refl visited_subset)
  from 1 2 3 z have "snd st1 = 0 \<and> snd st2 = 0"
    by (simp add: still_def)
  with 1 2 3 z have st1: "st1 = (kb, 0)" and st2: "st2 = (kb, 0)"
    by (simp_all add: still_def)
  have "snd (safe_step (visited (safes kb)) (kb, 0)) = 0"
    using st2 by (simp add: st2_def st1 del: snd_safe_step)
  then have "hits (visited (safes kb)) (knowledge kb) = 0"
    by simp
  then have safes: "\<forall>s \<in> set (knowledge kb). cells s \<inter> safes kb = {}"
    using fin by (simp add: hits_zero visited_cases kb_finite_def)
  have "hits (visited (mines kb)) (knowledge kb) = 0"
    using z by (simp add: eq st2)
  then have mines: "\<forall>s \<in> set (knowledge kb). cells s \<inter> mines kb = {}"
    using fin by (simp add: hits_zero visited_cases kb_finite_def)
  have each: "\<forall>i \<in> set [0..<length (knowledge kb)]. update_sentence i (kb, 0) = (kb, 0)"
    using fold_update_sentence_zero [of "[0..<length (knowledge kb)]" kb] st1
    by (simp add: st1_def)
  have "unsaturated kb"
    unfolding unsaturated_def
  proof (intro ballI impI)
    fix s assume s: "s \<in> set (knowledge kb)" and ne: "cells s \<noteq> {}"
    then obtain i where i: "i < length (knowledge kb)" "s = knowledge kb ! i"
      by (auto simp: in_set_conv_nth)
    have "finite (cells s)"
      using fin s by (simp add: kb_finite_def)
    then show "count s \<noteq> 0 \<and> int (card (cells s)) \<noteq> count s"
      using update_sentence_zero [of i kb] i ne each by simp
  qed
  moreover have "clean kb"
    using safes mines by (auto simp: clean_def)
  ultimately show ?thesis ..
qed

text \<open>On a settled state a pass changes nothing.\<close>

lemma settled_update_sentence:
  assumes "unsaturated kb" "i < length (knowledge kb)"
  shows "update_sentence i (kb, n) = (kb, n)"
proof -
  define x where "x = knowledge kb ! i"
  have x: "x \<in> set (knowledge kb)"
    using assms(2) by (simp add: x_def)
  then have sat: "cells x \<noteq> {} \<Longrightarrow> count x \<noteq> 0 \<and> int (card (cells x)) \<noteq> count x"
    using assms(1) by (simp add: unsaturated_def)
  have "known_safes x = {}"
    using sat by (auto simp: known_safes_def)
  then have 1: "safe_step (visited (known_safes x)) (kb, n) = (kb, n)"
    by (simp add: visited_cases safe_step_def)
  have "known_mines x = {}"
    using sat by (auto simp: known_mines_def)
  then have 2: "mine_step (visited (known_mines x)) (kb, n) = (kb, n)"
    by (simp add: visited_cases mine_step_def)
  show ?thesis
    using 1 2 by (simp add: update_sentence_eq Let_def x_def)
qed

lemma settled_update_pass:
  assumes "unsaturated kb" "clean kb"
  shows "update_pass kb = (kb, 0)"
proof -
  have "\<forall>i \<in> set xs. i < length (knowledge kb) \<Longrightarrow> fold update_sentence xs (kb, 0) = (kb, 0)" for xs
    by (induction xs) (simp_all add: settled_update_sentence [OF assms(1)])
  then have 1: "fold update_sentence [0..<length (knowledge kb)] (kb, 0) = (kb, 0)"
    by simp
  have d: "\<forall>s \<in> set (knowledge kb). cells s \<inter> visited (safes kb) = {}"
    "\<forall>s \<in> set (knowledge kb). cells s \<inter> visited (mines kb) = {}"
    using assms(2) visited_subset [of "safes kb"] visited_subset [of "mines kb"]
    by (auto simp: clean_def)
  have "hits (visited (safes kb)) (knowledge kb) = 0" "hits (visited (mines kb)) (knowledge kb) = 0"
    using d by (simp_all add: hits_zero)
  then have 2: "safe_step (visited (safes kb)) (kb, 0) = (kb, 0)"
    and 3: "mine_step (visited (mines kb)) (kb, 0) = (kb, 0)"
    by (simp_all add: safe_step_zero mine_step_zero visited_subset)
  show ?thesis
    by (simp add: update_pass_eq Let_def 1 2 3)
qed

lemma passes_Suc_right: "passes (Suc n) kb = fst (update_pass (passes n kb))"
  by (induction n arbitrary: kb) simp_all

lemma update_rule:
  assumes fin: "kb_finite kb" and I: "I kb"
    and step: "\<And>k. kb_finite k \<Longrightarrow> I k \<Longrightarrow> I (fst (update_pass k))"
  shows "\<exists>kb'. update kb = Some kb' \<and> kb_finite kb' \<and> unsaturated kb' \<and> clean kb' \<and> I kb'"
proof -
  obtain n where n: "update kb = Some (passes (Suc n) kb)" "snd (update_pass (passes n kb)) = 0"
    using update_terminates [OF fin] by blast
  have "kb_finite (passes m kb) \<and> I (passes m kb)" for m
    using fin I
  proof (induction m arbitrary: kb)
    case 0
    then show ?case by simp
  next
    case (Suc m)
    then show ?case
      using update_pass_potential [of kb] step [of kb] by simp
  qed
  then have "kb_finite (passes n kb)" "I (passes n kb)"
    by simp_all
  moreover have "passes (Suc n) kb = passes n kb"
    using n(2) by (simp only: passes_Suc_right update_pass_zero)
  ultimately show ?thesis
    using n update_pass_zero_settled [of "passes n kb"] by simp
qed

section \<open>The example state\<close>

lemma kb_finite_example: "kb_finite example_kb"
  by (simp add: kb_finite_def example_kb_def MinesweeperAI_def)

lemma update_example: "update example_kb = Some example_kb_updated"
  by code_simp

section \<open>Termination of \<open>update\<close>\<close>

text \<open>
  Claim C8. On a state whose sets are finite, \<open>update\<close> returns: it makes at most as
  many passes with a mutation as the sentences have cell memberships, and returns the
  state after the first pass that counts no mutation. Every pass that counts a mutation
  leaves strictly fewer cell memberships than it found, and a pass that counts none
  leaves the state as it found it.
\<close>

theorem update_terminates_by_potential:
  assumes "kb_finite kb"
  shows "(\<exists>kb'. update kb = Some kb') \<and>
    (\<exists>n \<le> memberships kb. update kb = Some (passes (Suc n) kb) \<and>
        snd (update_pass (passes n kb)) = 0 \<and>
        (\<forall>m < n. snd (update_pass (passes m kb)) \<noteq> 0)) \<and>
    (\<forall>m. snd (update_pass (passes m kb)) \<noteq> 0 \<longrightarrow>
        memberships (passes (Suc m) kb) < memberships (passes m kb)) \<and>
    (\<forall>m. snd (update_pass (passes m kb)) = 0 \<longrightarrow> passes (Suc m) kb = passes m kb)"
proof -
  have 1: "\<exists>n \<le> memberships kb. update kb = Some (passes (Suc n) kb) \<and>
        snd (update_pass (passes n kb)) = 0 \<and>
        (\<forall>m < n. snd (update_pass (passes m kb)) \<noteq> 0)"
    by (rule update_terminates [OF assms])
  then have 2: "\<exists>kb'. update kb = Some kb'"
    by blast
  have 3: "memberships (passes (Suc m) kb) < memberships (passes m kb)"
    if "snd (update_pass (passes m kb)) \<noteq> 0" for m
    using update_pass_potential [OF kb_finite_passes [OF assms, of m]] that
    by (simp only: passes_Suc_right) linarith
  have 4: "passes (Suc m) kb = passes m kb" if "snd (update_pass (passes m kb)) = 0" for m
    using that by (simp only: passes_Suc_right update_pass_zero)
  from 1 2 3 4 show ?thesis
    by blast
qed

theorem update_terminates_by_potential_witness:
  "kb_finite example_kb \<and> update example_kb = Some example_kb_updated \<and>
   memberships example_kb = 5 \<and> memberships example_kb_updated = 0 \<and>
   (\<exists>n \<le> memberships example_kb. update example_kb = Some (passes (Suc n) example_kb))"
proof -
  have "memberships example_kb = 5" "memberships example_kb_updated = 0"
    by (simp_all add: memberships_def example_kb_def example_kb_updated_def MinesweeperAI_def)
  then show ?thesis
    using update_terminates_by_potential [OF kb_finite_example] kb_finite_example update_example
    by blast
qed

section \<open>Saturated sentences after \<open>update\<close>\<close>

lemma extraction_safe_step:
  assumes "length (knowledge k) = length ks0"
    and "\<forall>i < length ks0. cells (knowledge k ! i) \<subseteq> cells (ks0 ! i) \<and>
          cells (ks0 ! i) - cells (knowledge k ! i) \<subseteq> safes k \<union> mines k"
  shows "\<forall>i < length ks0. cells (knowledge (fst (safe_step S (k, n))) ! i) \<subseteq> cells (ks0 ! i) \<and>
          cells (ks0 ! i) - cells (knowledge (fst (safe_step S (k, n))) ! i)
            \<subseteq> safes (fst (safe_step S (k, n))) \<union> mines (fst (safe_step S (k, n)))"
  using assms by (auto simp: safe_step_def)

lemma extraction_mine_step:
  assumes "length (knowledge k) = length ks0"
    and "\<forall>i < length ks0. cells (knowledge k ! i) \<subseteq> cells (ks0 ! i) \<and>
          cells (ks0 ! i) - cells (knowledge k ! i) \<subseteq> safes k \<union> mines k"
  shows "\<forall>i < length ks0. cells (knowledge (fst (mine_step S (k, n))) ! i) \<subseteq> cells (ks0 ! i) \<and>
          cells (ks0 ! i) - cells (knowledge (fst (mine_step S (k, n))) ! i)
            \<subseteq> safes (fst (mine_step S (k, n))) \<union> mines (fst (mine_step S (k, n)))"
  using assms by (auto simp: mine_step_def)

lemma extraction_update_pass:
  assumes "length (knowledge k) = length ks0 \<and> S0 \<subseteq> safes k \<and> M0 \<subseteq> mines k \<and>
     (\<forall>i < length ks0. cells (knowledge k ! i) \<subseteq> cells (ks0 ! i) \<and>
          cells (ks0 ! i) - cells (knowledge k ! i) \<subseteq> safes k \<union> mines k)"
  shows "length (knowledge (fst (update_pass k))) = length ks0 \<and>
     S0 \<subseteq> safes (fst (update_pass k)) \<and> M0 \<subseteq> mines (fst (update_pass k)) \<and>
     (\<forall>i < length ks0. cells (knowledge (fst (update_pass k)) ! i) \<subseteq> cells (ks0 ! i) \<and>
          cells (ks0 ! i) - cells (knowledge (fst (update_pass k)) ! i)
            \<subseteq> safes (fst (update_pass k)) \<union> mines (fst (update_pass k)))"
proof -
  define J where "J = (\<lambda>st :: ai \<times> int.
     length (knowledge (fst st)) = length ks0 \<and> S0 \<subseteq> safes (fst st) \<and> M0 \<subseteq> mines (fst st) \<and>
     (\<forall>i < length ks0. cells (knowledge (fst st) ! i) \<subseteq> cells (ks0 ! i) \<and>
          cells (ks0 ! i) - cells (knowledge (fst st) ! i) \<subseteq> safes (fst st) \<union> mines (fst st)))"
  have "J (update_pass k)"
  proof (rule update_pass_rule [where J = J])
    show "J (k, 0)"
      using assms by (simp add: J_def)
  next
    fix k n and S :: "cell set"
    assume "J (k, n)"
    then show "J (safe_step S (k, n))"
      using extraction_safe_step [of k ks0 S n]
      by (simp add: J_def) (auto simp: safe_step_def)
  next
    fix k n and S :: "cell set"
    assume "J (k, n)"
    then show "J (mine_step S (k, n))"
      using extraction_mine_step [of k ks0 S n]
      by (simp add: J_def) (auto simp: mine_step_def)
  qed
  then show ?thesis
    by (simp add: J_def)
qed

text \<open>
  Claim C2. On a state whose sets are finite, \<open>update\<close> returns, and in the state it
  returns no sentence that still has cells has count 0 or as many cells as its count.
  The sentences are the same ones, in place; each has lost cells only, and every cell
  a sentence has lost is in the safes or in the mines of the returned state. (A sentence
  whose cells are all gone stays in the list until \<open>inference\<close> drops it: the live
  sentences are the ones that still have cells.)
\<close>

theorem update_saturation:
  assumes "kb_finite kb"
  shows "\<exists>kb'. update kb = Some kb' \<and>
     (\<forall>s \<in> set (knowledge kb'). cells s \<noteq> {} \<longrightarrow> count s \<noteq> 0 \<and> int (card (cells s)) \<noteq> count s) \<and>
     length (knowledge kb') = length (knowledge kb) \<and>
     safes kb \<subseteq> safes kb' \<and> mines kb \<subseteq> mines kb' \<and>
     (\<forall>i < length (knowledge kb). cells (knowledge kb' ! i) \<subseteq> cells (knowledge kb ! i) \<and>
          cells (knowledge kb ! i) - cells (knowledge kb' ! i) \<subseteq> safes kb' \<union> mines kb')"
proof -
  define I where "I = (\<lambda>k :: ai. length (knowledge k) = length (knowledge kb) \<and>
     safes kb \<subseteq> safes k \<and> mines kb \<subseteq> mines k \<and>
     (\<forall>i < length (knowledge kb). cells (knowledge k ! i) \<subseteq> cells (knowledge kb ! i) \<and>
          cells (knowledge kb ! i) - cells (knowledge k ! i) \<subseteq> safes k \<union> mines k))"
  have "\<exists>kb'. update kb = Some kb' \<and> kb_finite kb' \<and> unsaturated kb' \<and> clean kb' \<and> I kb'"
  proof (rule update_rule [OF assms, where I = I])
    show "I kb" by (simp add: I_def)
  next
    fix k assume "I k"
    then show "I (fst (update_pass k))"
      unfolding I_def by (rule extraction_update_pass)
  qed
  then show ?thesis
    unfolding I_def unsaturated_def by blast
qed

theorem update_saturation_witness:
  "kb_finite example_kb \<and> update example_kb = Some example_kb_updated \<and>
   knowledge example_kb = [\<lparr>cells = {(0, 1), (1, 0), (1, 1)}, count = 0\<rparr>, \<lparr>cells = {(1, 1), (1, 2)}, count = 1\<rparr>] \<and>
   knowledge example_kb_updated = [\<lparr>cells = {}, count = 0\<rparr>, \<lparr>cells = {}, count = 0\<rparr>] \<and>
   safes example_kb_updated \<union> mines example_kb_updated = {(0, 1), (1, 0), (1, 1), (1, 2)} \<and>
   (\<exists>kb'. update example_kb = Some kb' \<and> length (knowledge kb') = length (knowledge example_kb))"
proof -
  have "knowledge example_kb = [\<lparr>cells = {(0, 1), (1, 0), (1, 1)}, count = 0\<rparr>, \<lparr>cells = {(1, 1), (1, 2)}, count = 1\<rparr>]"
    "knowledge example_kb_updated = [\<lparr>cells = {}, count = 0\<rparr>, \<lparr>cells = {}, count = 0\<rparr>]"
    "safes example_kb_updated \<union> mines example_kb_updated = {(0, 1), (1, 0), (1, 1), (1, 2)}"
    by (auto simp: example_kb_def example_kb_updated_def MinesweeperAI_def)
  then show ?thesis
    using update_saturation [OF kb_finite_example] kb_finite_example update_example
    by blast
qed

section \<open>\<open>inference\<close> in closed form\<close>

lemma inference_inner_fold:
  assumes "cells s1 \<noteq> {}"
  shows "fold (inference_inner ks s1) xs (nd, tr) =
    (nd @ filter (\<lambda>d. d \<notin> set ks) (concat (map (\<lambda>B. if qualifies s1 B then [derive s1 B] else []) xs)),
     tr @ filter (\<lambda>s. cells s = {}) xs)"
proof (induction xs arbitrary: nd tr)
  case Nil
  show ?case by simp
next
  case (Cons s2 xs)
  have "inference_inner ks s1 s2 (nd, tr) =
     (nd @ filter (\<lambda>d. d \<notin> set ks) (if qualifies s1 s2 then [derive s1 s2] else []),
      tr @ filter (\<lambda>s. cells s = {}) [s2])"
    using assms by (simp add: inference_inner_def qualifies_def derive_def Let_def)
  then show ?case
    by (simp add: Cons.IH)
qed

lemma inference_outer_fold:
  "fold (inference_outer ks) xs (nd, tr) =
    (nd @ filter (\<lambda>d. d \<notin> set ks)
            (concat (map (\<lambda>A. concat (map (\<lambda>B. if qualifies A B then [derive A B] else []) ks)) xs)),
     tr @ trash_of ks xs)"
proof (induction xs arbitrary: nd tr)
  case Nil
  show ?case by (simp add: trash_of_def)
next
  case (Cons s1 xs)
  show ?case
  proof (cases "cells s1 = {}")
    case True
    then have q: "\<not> qualifies s1 B" for B
      by (simp add: qualifies_def)
    have "inference_outer ks s1 (nd, tr) = (nd, tr @ [s1])"
      using True by (simp add: inference_outer_def)
    then show ?thesis
      using True by (simp add: Cons.IH trash_of_def q)
  next
    case False
    then have "inference_outer ks s1 (nd, tr) = fold (inference_inner ks s1) ks (nd, tr)"
      by (simp add: inference_outer_def)
    then show ?thesis
      using False by (simp add: Cons.IH inference_inner_fold trash_of_def)
  qed
qed

lemma set_trash_of: "set (trash_of ks ks) = {s \<in> set ks. cells s = {}}"
  by (auto simp: trash_of_def split: if_splits)

lemma inference_eq:
  "inference kb =
     (kb\<lparr>knowledge := filter (\<lambda>s. cells s \<noteq> {}) (knowledge kb)\<rparr>,
      filter (\<lambda>d. d \<notin> set (knowledge kb)) (candidates (knowledge kb)))"
proof -
  have "filter (\<lambda>x. x \<notin> set (trash_of (knowledge kb) (knowledge kb))) (knowledge kb) =
      filter (\<lambda>s. cells s \<noteq> {}) (knowledge kb)"
    by (rule filter_cong) (simp_all add: set_trash_of)
  then show ?thesis
    by (simp add: inference_def inference_outer_fold candidates_def)
qed

section \<open>What \<open>inference\<close> returns\<close>

text \<open>
  Claim C1, as the code has it. \<open>inference\<close> returns, in the order of its two loops, the
  statement derived from every ordered pair \<open>(A, B)\<close> of sentences of the knowledge that
  are not equal, both have cells and have the cells of \<open>B\<close> among those of \<open>A\<close>, unless
  the derived statement is equal to a sentence of the knowledge. It returns nothing
  else, and it returns a statement once for every pair that derives it: it does not look
  at what the pass has produced already. It adds nothing to the knowledge: the knowledge
  it leaves is the old one without the sentences that have no cells, and the rest of
  the state is unchanged.
\<close>

theorem inference_result:
  "snd (inference kb) = filter (\<lambda>d. d \<notin> set (knowledge kb)) (candidates (knowledge kb)) \<and>
   fst (inference kb) = kb\<lparr>knowledge := filter (\<lambda>s. cells s \<noteq> {}) (knowledge kb)\<rparr>"
  by (simp add: inference_eq)

theorem inference_result_witness:
  "snd (inference dup_kb) = [\<lparr>cells = {(0, 2)}, count = 1\<rparr>, \<lparr>cells = {(0, 2)}, count = 1\<rparr>] \<and>
   snd (inference dup_kb) = filter (\<lambda>d. d \<notin> set (knowledge dup_kb)) (candidates (knowledge dup_kb)) \<and>
   knowledge (fst (inference dup_kb)) = knowledge dup_kb"
proof -
  have "snd (inference dup_kb) = [\<lparr>cells = {(0, 2)}, count = 1\<rparr>, \<lparr>cells = {(0, 2)}, count = 1\<rparr>]"
    by code_simp
  moreover have "filter (\<lambda>s. cells s \<noteq> {}) (knowledge dup_kb) = knowledge dup_kb"
    by (simp add: dup_kb_def MinesweeperAI_def)
  ultimately show ?thesis
    using inference_result [of dup_kb] by simp
qed

text \<open>
  Claim C1 as the specification states it fails: in \<open>dup_kb\<close> the pairs of the first two
  and of the last two sentences both derive \<open>{(0, 2)} = 1\<close>, and \<open>inference\<close> returns it
  twice, where the specification emits it once.
\<close>

theorem inference_spec_counterexample:
  "snd (inference dup_kb) = [\<lparr>cells = {(0, 2)}, count = 1\<rparr>, \<lparr>cells = {(0, 2)}, count = 1\<rparr>] \<and>
   inference_spec (knowledge dup_kb) = [\<lparr>cells = {(0, 2)}, count = 1\<rparr>] \<and>
   snd (inference dup_kb) \<noteq> inference_spec (knowledge dup_kb)"
proof -
  have 1: "snd (inference dup_kb) = [\<lparr>cells = {(0, 2)}, count = 1\<rparr>, \<lparr>cells = {(0, 2)}, count = 1\<rparr>]"
    by code_simp
  have 2: "inference_spec (knowledge dup_kb) = [\<lparr>cells = {(0, 2)}, count = 1\<rparr>]"
    by code_simp
  show ?thesis
    by (simp add: 1 2)
qed

section \<open>Equal sentences in the knowledge\<close>

lemma small_board_facts:
  "wf_board small_board" "in_bounds small_board (0, 0)" "\<not> is_mine small_board (0, 0)"
  "in_bounds small_board (0, 1)" "\<not> is_mine small_board (0, 1)"
  "nearby_mines small_board (0, 0) = 1" "nearby_mines small_board (0, 1) = 1"
  by code_simp+

lemma small_add_knowledge:
  "add_knowledge (MinesweeperAI 2 2) (0, 0) 1 = Some small_kb1"
  "add_knowledge small_kb1 (0, 1) 1 = Some small_kb2"
  by code_simp+

lemma small_reachable: "reachable small_kb2"
  using reachable.add [OF reachable.add [OF reachable.start small_add_knowledge(1)]
      small_add_knowledge(2)] .

lemma small_plays: "plays small_board small_kb2"
proof -
  have 0: "plays small_board (MinesweeperAI 2 2)"
    using plays.start [OF small_board_facts(1)] by (simp add: small_board_def)
  have 1: "plays small_board small_kb1"
    using plays.reveal [OF 0 small_board_facts(2,3)] small_add_knowledge(1)
    by (simp add: small_board_facts)
  show ?thesis
    using plays.reveal [OF 1 small_board_facts(4,5)] small_add_knowledge(2)
    by (simp add: small_board_facts)
qed

text \<open>
  Claim C6 fails. On the board \<open>small_board\<close> the player reveals \<open>(0, 0)\<close> and then
  \<open>(0, 1)\<close>, each with its true count 1. The two sentences the calls append both become
  \<open>{(1, 0), (1, 1)} = 1\<close> once the revealed cells are removed, and both stay in the
  knowledge.
\<close>

theorem knowledge_distinct_counterexample:
  "add_knowledge (MinesweeperAI 2 2) (0, 0) 1 = Some small_kb1 \<and>
   add_knowledge small_kb1 (0, 1) 1 = Some small_kb2 \<and>
   reachable small_kb2 \<and> plays small_board small_kb2 \<and>
   knowledge small_kb2 =
     [\<lparr>cells = {(1, 0), (1, 1)}, count = 1\<rparr>, \<lparr>cells = {(1, 0), (1, 1)}, count = 1\<rparr>] \<and>
   \<not> distinct (knowledge small_kb2)"
  using small_add_knowledge small_reachable small_plays
  by (simp add: small_kb2_def)

text \<open>
  Claim C6, as the code has it. The one check for equal sentences is in \<open>inference\<close>: no
  statement it returns is equal to a sentence of the knowledge it was run on. The
  sentence \<open>add_knowledge\<close> appends for the revealed cell is not checked, and neither are
  sentences that the propagation makes equal.
\<close>

theorem inference_returns_new:
  "set (snd (inference kb)) \<inter> set (knowledge kb) = {}"
  by (auto simp: inference_eq)

theorem inference_returns_new_witness:
  "snd (inference dup_kb) = [\<lparr>cells = {(0, 2)}, count = 1\<rparr>, \<lparr>cells = {(0, 2)}, count = 1\<rparr>] \<and>
   \<lparr>cells = {(0, 2)}, count = 1\<rparr> \<notin> set (knowledge dup_kb)"
proof -
  have "snd (inference dup_kb) = [\<lparr>cells = {(0, 2)}, count = 1\<rparr>, \<lparr>cells = {(0, 2)}, count = 1\<rparr>]"
    by code_simp
  then show ?thesis
    using inference_returns_new [of dup_kb] by simp
qed

section \<open>A rule for \<open>add_knowledge\<close>\<close>

lemma friends_neighbors: "friends kb cell = neighbors (height kb) (width kb) cell"
  by (cases cell) (auto simp: friends_def neighbors_def)

lemma strike_safe_single_eq: "strike_safe {c} = (\<lambda>s. s\<lparr>cells := cells s - {c}\<rparr>)"
  by (rule ext) (simp add: strike_safe_def)

lemma add_knowledge_eq: "add_knowledge kb cell n = settle (observed kb cell n)"
  by (simp add: add_knowledge_def settle_def observed_def Let_def mark_safe_eq safe_step_def
      friends_neighbors strike_safe_single_eq)

lemma finite_neighbors: "finite (neighbors h w cell)"
proof -
  have "neighbors h w cell \<subseteq> {0..h} \<times> {0..w}"
    by (auto simp: neighbors_def)
  then show ?thesis
    by (rule finite_subset) simp
qed

lemma kb_finite_observed: "kb_finite kb \<Longrightarrow> kb_finite (observed kb cell n)"
  by (auto simp: kb_finite_def observed_def finite_neighbors)

lemma set_candidates:
  "set (candidates ks) = {derive A B | A B. A \<in> set ks \<and> B \<in> set ks \<and> qualifies A B}"
  by (auto simp: candidates_def)

lemma kb_finite_inference:
  assumes "kb_finite k"
  shows "kb_finite ((fst (inference k))\<lparr>knowledge := knowledge (fst (inference k)) @ snd (inference k)\<rparr>)"
  using assms by (auto simp: inference_eq kb_finite_def set_candidates derive_def)

lemma propagated_settled:
  assumes "propagated kb nd"
  shows "unsaturated kb" "clean kb"
proof -
  obtain k where k: "unsaturated k" "clean k"
    "kb = k\<lparr>knowledge := filter (\<lambda>s. cells s \<noteq> {}) (knowledge k)\<rparr>"
    using assms by (auto simp: propagated_def inference_eq)
  show "unsaturated kb"
    using k(1) by (simp add: k(3) unsaturated_def)
  show "clean kb"
    using k(2) by (simp add: k(3) clean_def)
qed

lemma add_knowledge_loop_rule:
  assumes run: "add_knowledge_loop kb nd = Some kb'"
    and H: "kb_finite (kb\<lparr>knowledge := knowledge kb @ nd\<rparr>)" "I (kb\<lparr>knowledge := knowledge kb @ nd\<rparr>)"
      "propagated kb nd"
    and upd: "\<And>k. kb_finite k \<Longrightarrow> I k \<Longrightarrow> I (fst (update_pass k))"
    and inf: "\<And>k. kb_finite k \<Longrightarrow> I k \<Longrightarrow>
        I ((fst (inference k))\<lparr>knowledge := knowledge (fst (inference k)) @ snd (inference k)\<rparr>)"
  shows "kb_finite kb' \<and> I kb' \<and> propagated kb' []"
proof -
  define P where "P = (\<lambda>k ds y.
      kb_finite (k\<lparr>knowledge := knowledge k @ ds\<rparr>) \<and> I (k\<lparr>knowledge := knowledge k @ ds\<rparr>) \<and>
      propagated k ds \<longrightarrow> kb_finite y \<and> I y \<and> propagated y [])"
  have "P kb nd kb'"
  proof (rule add_knowledge_loop.raw_induct [where P = P, rotated, OF run])
    fix loop k ds y
    assume IH: "\<And>k ds y. loop k ds = Some y \<Longrightarrow> P k ds y"
      and body: "(if ds \<noteq> [] then
          Option.bind (update (k\<lparr>knowledge := knowledge k @ ds\<rparr>))
            (\<lambda>kb1. let (kb2, new_data') = inference kb1 in loop kb2 new_data')
        else Some k) = Some y"
    show "P k ds y"
      unfolding P_def
    proof (intro impI, elim conjE)
      assume fin: "kb_finite (k\<lparr>knowledge := knowledge k @ ds\<rparr>)"
        and I: "I (k\<lparr>knowledge := knowledge k @ ds\<rparr>)" and p: "propagated k ds"
      show "kb_finite y \<and> I y \<and> propagated y []"
      proof (cases "ds = []")
        case True
        then have "y = k"
          using body by simp
        then show ?thesis
          using fin I p True by simp
      next
        case False
        obtain k1 where k1: "update (k\<lparr>knowledge := knowledge k @ ds\<rparr>) = Some k1"
          "kb_finite k1" "unsaturated k1" "clean k1" "I k1"
          using update_rule [OF fin, of I] I upd by blast
        define k2 where "k2 = fst (inference k1)"
        define ds' where "ds' = snd (inference k1)"
        have "loop k2 ds' = Some y"
          using body False k1(1) by (simp add: k2_def ds'_def case_prod_beta)
        then have "P k2 ds' y"
          by (rule IH)
        moreover have "kb_finite (k2\<lparr>knowledge := knowledge k2 @ ds'\<rparr>)"
          unfolding k2_def ds'_def by (rule kb_finite_inference [OF k1(2)])
        moreover have "I (k2\<lparr>knowledge := knowledge k2 @ ds'\<rparr>)"
          unfolding k2_def ds'_def by (rule inf [OF k1(2,5)])
        moreover have "propagated k2 ds'"
          using k1 by (auto simp: propagated_def k2_def ds'_def)
        ultimately show ?thesis
          by (simp add: P_def)
      qed
    qed
  qed
  with H show ?thesis by (simp add: P_def)
qed

lemma settle_rule:
  assumes run: "settle kb = Some kb'"
    and H: "kb_finite kb" "I kb"
    and upd: "\<And>k. kb_finite k \<Longrightarrow> I k \<Longrightarrow> I (fst (update_pass k))"
    and inf: "\<And>k. kb_finite k \<Longrightarrow> I k \<Longrightarrow>
        I ((fst (inference k))\<lparr>knowledge := knowledge (fst (inference k)) @ snd (inference k)\<rparr>)"
  shows "kb_finite kb' \<and> I kb' \<and> propagated kb' []"
proof -
  obtain k1 where k1: "update kb = Some k1"
    "kb_finite k1" "unsaturated k1" "clean k1" "I k1"
    using update_rule [OF H(1), of I] H(2) upd by blast
  define k2 where "k2 = fst (inference k1)"
  define nd where "nd = snd (inference k1)"
  have "add_knowledge_loop k2 nd = Some kb'"
    using run k1(1) by (simp add: settle_def k2_def nd_def case_prod_beta)
  moreover have "kb_finite (k2\<lparr>knowledge := knowledge k2 @ nd\<rparr>)"
    unfolding k2_def nd_def by (rule kb_finite_inference [OF k1(2)])
  moreover have "I (k2\<lparr>knowledge := knowledge k2 @ nd\<rparr>)"
    unfolding k2_def nd_def by (rule inf [OF k1(2,5)])
  moreover have "propagated k2 nd"
    using k1 by (auto simp: propagated_def k2_def nd_def)
  ultimately show ?thesis
    using upd inf by (intro add_knowledge_loop_rule [where I = I and kb = k2 and nd = nd])
qed

section \<open>Known cells are in no sentence\<close>

lemma clean_mark_safe: "clean kb \<Longrightarrow> clean (fst (mark_safe kb c))"
  by (auto simp: clean_def mark_safe_eq safe_step_def)

lemma clean_mark_mine: "clean kb \<Longrightarrow> clean (fst (mark_mine kb c))"
  by (auto simp: clean_def mark_mine_eq mine_step_def)

lemma kb_finite_mark_safe: "kb_finite kb \<Longrightarrow> kb_finite (fst (mark_safe kb c))"
  by (simp add: mark_safe_eq kb_finite_safe_step)

lemma kb_finite_mark_mine: "kb_finite kb \<Longrightarrow> kb_finite (fst (mark_mine kb c))"
  by (simp add: mark_mine_eq kb_finite_mine_step)

lemma add_knowledge_settled:
  assumes "kb_finite kb" "add_knowledge kb cell n = Some kb'"
  shows "kb_finite kb' \<and> propagated kb' []"
proof -
  have "settle (observed kb cell n) = Some kb'"
    using assms(2) by (simp add: add_knowledge_eq)
  then have "kb_finite kb' \<and> True \<and> propagated kb' []"
    by (rule settle_rule [where I = "\<lambda>_. True"]) (simp_all add: kb_finite_observed assms(1))
  then show ?thesis by simp
qed

lemma reachable_finite_clean: "reachable kb \<Longrightarrow> kb_finite kb \<and> clean kb"
proof (induction rule: reachable.induct)
  case (start h w)
  show ?case
    by (simp add: kb_finite_def clean_def MinesweeperAI_def)
next
  case (add kb cell n kb')
  then show ?case
    using add_knowledge_settled [of kb cell n kb'] propagated_settled(2) [of kb' "[]"] by simp
next
  case (safe kb cell)
  then show ?case
    by (simp add: clean_mark_safe kb_finite_mark_safe)
next
  case (mine kb cell)
  then show ?case
    by (simp add: clean_mark_mine kb_finite_mark_mine)
next
  case (propagate kb kb')
  then show ?case
    using update_rule [of kb "\<lambda>_. True"] by auto
next
  case (infer kb)
  then show ?case
    by (auto simp: inference_eq kb_finite_def clean_def)
qed

text \<open>
  Claim C3. In every state that a driver can observe (the state the constructor builds,
  and the state after any \<open>add_knowledge\<close> that returns, \<open>mark_safe\<close>, \<open>mark_mine\<close>, \<open>update\<close>
  or \<open>inference\<close>), no cell of the safes or of the mines is among the cells of a sentence
  of the knowledge.
\<close>

theorem known_cells_absent:
  "reachable kb \<Longrightarrow> \<forall>c \<in> safes kb \<union> mines kb. \<forall>s \<in> set (knowledge kb). c \<notin> cells s"
  using reachable_finite_clean [of kb] by (auto simp: clean_def)

theorem known_cells_absent_witness:
  "reachable small_kb2 \<and> safes small_kb2 \<union> mines small_kb2 = {(0, 0), (0, 1)} \<and>
   knowledge small_kb2 =
     [\<lparr>cells = {(1, 0), (1, 1)}, count = 1\<rparr>, \<lparr>cells = {(1, 0), (1, 1)}, count = 1\<rparr>] \<and>
   (0, 0) \<notin> cells (knowledge small_kb2 ! 0) \<and> (0, 1) \<notin> cells (knowledge small_kb2 ! 1)"
  using known_cells_absent [OF small_reachable] small_reachable
  by (auto simp: small_kb2_def)

section \<open>What \<open>add_knowledge\<close> does\<close>

lemma moves_made_update_pass:
  assumes "moves_made k = X \<and> c \<in> safes k"
  shows "moves_made (fst (update_pass k)) = X \<and> c \<in> safes (fst (update_pass k))"
  by (rule update_pass_rule [where J = "\<lambda>st. moves_made (fst st) = X \<and> c \<in> safes (fst st)"])
    (simp_all add: assms safe_step_def mine_step_def)

text \<open>What holds of the state that \<open>add_knowledge\<close> returns, when it returns.\<close>

lemma add_knowledge_fixpoint:
  "add_knowledge kb cell n = settle (observed kb cell n) \<and>
   (\<forall>kb'. kb_finite kb \<and> add_knowledge kb cell n = Some kb' \<longrightarrow>
      moves_made kb' = insert cell (moves_made kb) \<and> cell \<in> safes kb' \<and>
      update_pass kb' = (kb', 0) \<and>
      (\<exists>k. update_pass k = (k, 0) \<and> inference k = (kb', [])))"
proof (intro conjI allI impI)
  show "add_knowledge kb cell n = settle (observed kb cell n)"
    by (rule add_knowledge_eq)
next
  fix kb'
  assume a: "kb_finite kb \<and> add_knowledge kb cell n = Some kb'"
  define I where "I = (\<lambda>k :: ai. moves_made k = insert cell (moves_made kb) \<and> cell \<in> safes k)"
  have "settle (observed kb cell n) = Some kb'"
    using a by (simp add: add_knowledge_eq)
  then have r: "kb_finite kb' \<and> I kb' \<and> propagated kb' []"
  proof (rule settle_rule [where I = I])
    show "kb_finite (observed kb cell n)"
      using a by (simp add: kb_finite_observed)
    show "I (observed kb cell n)"
      by (simp add: I_def observed_def)
  next
    fix k assume "I k"
    then show "I (fst (update_pass k))"
      unfolding I_def by (rule moves_made_update_pass)
  next
    fix k assume "I k"
    then show "I ((fst (inference k))\<lparr>knowledge := knowledge (fst (inference k)) @ snd (inference k)\<rparr>)"
      by (simp add: I_def inference_eq)
  qed
  then show "moves_made kb' = insert cell (moves_made kb)" "cell \<in> safes kb'"
    by (simp_all add: I_def)
  show "update_pass kb' = (kb', 0)"
    using r propagated_settled [of kb' "[]"] by (simp add: settled_update_pass)
  obtain k where "unsaturated k" "clean k" "inference k = (kb', [])"
    using r by (auto simp: propagated_def)
  then have "update_pass k = (k, 0) \<and> inference k = (kb', [])"
    by (simp add: settled_update_pass)
  then show "\<exists>k. update_pass k = (k, 0) \<and> inference k = (kb', [])" ..
qed

lemma kb_finite_small_kb1: "kb_finite small_kb1"
  by (simp add: kb_finite_def small_kb1_def)

lemma small_observed:
  "knowledge (observed small_kb1 (0, 1) 1) =
     [\<lparr>cells = {(1, 0), (1, 1)}, count = 1\<rparr>, \<lparr>cells = {(0, 0), (1, 0), (1, 1)}, count = 1\<rparr>]"
proof -
  have "friends small_kb1 (0, 1) = {(0, 0), (1, 0), (1, 1)}"
    by code_simp
  then have "neighbors 2 2 (0, 1) = {(0, 0), (1, 0), (1, 1)}"
    by (simp add: friends_neighbors small_kb1_def)
  then show ?thesis
    by (auto simp: observed_def small_kb1_def)
qed

section \<open>The count the board gives\<close>

lemma concat_map_if:
  "concat (map (\<lambda>j. if P j then [f j] else []) ys) = map f (filter P ys)"
  by (induction ys) simp_all

lemma distinct_pairs:
  assumes "distinct xs" "distinct ys"
  shows "distinct [(i, j). i \<leftarrow> xs, j \<leftarrow> ys, P i j]"
  using assms(1)
proof (induction xs)
  case Nil
  show ?case by simp
next
  case (Cons i xs)
  have row: "concat (map (\<lambda>j. if P i j then [(i, j)] else []) ys) = map (Pair i) (filter (P i) ys)"
    by (rule concat_map_if)
  have "distinct (map (Pair i) (filter (P i) ys))"
    using assms(2) by (simp add: distinct_map inj_on_def)
  moreover have "set (map (Pair i) (filter (P i) ys)) \<inter>
      set [(i, j). i \<leftarrow> xs, j \<leftarrow> ys, P i j] = {}"
    using Cons.prems by auto
  ultimately show ?case
    using Cons by (simp add: row)
qed

lemma nearby_mines_card:
  "nearby_mines g cell = int (card (neighbors (ms_height g) (ms_width g) cell \<inter> mine_cells g))"
proof -
  define L where "L = [(i, j). i \<leftarrow> [fst cell - 1..fst cell + 1], j \<leftarrow> [snd cell - 1..snd cell + 1],
                  (i, j) \<noteq> cell \<and>
                  (0 \<le> i \<and> i < ms_height g \<and> 0 \<le> j \<and> j < ms_width g) \<and>
                  board g ! nat i ! nat j]"
  have "distinct L"
    unfolding L_def by (rule distinct_pairs) simp_all
  then have "length L = card (set L)"
    by (simp add: distinct_card)
  moreover have "set L = neighbors (ms_height g) (ms_width g) cell \<inter> mine_cells g"
    by (cases cell) (auto simp: L_def neighbors_def mine_cells_def in_bounds_def is_mine_def)
  ultimately show ?thesis
    by (simp add: nearby_mines_def L_def)
qed

section \<open>Truthful inputs keep the knowledge true\<close>

lemma card_Int_Diff:
  assumes "finite A" "B \<subseteq> A"
  shows "int (card ((A - B) \<inter> M)) = int (card (A \<inter> M)) - int (card (B \<inter> M))"
proof -
  have "(A - B) \<inter> M = (A \<inter> M) - (B \<inter> M)"
    by auto
  moreover have "B \<inter> M \<subseteq> A \<inter> M" "finite (B \<inter> M)" "finite (A \<inter> M)"
    using assms by (auto intro: finite_subset)
  ultimately show ?thesis
    by (simp add: card_Diff_subset card_mono)
qed

lemma sound_safe_step:
  fixes n :: int
  assumes "sound g k" "finite S" "S \<inter> mine_cells g = {}"
  shows "sound g (fst (safe_step S (k, n)))"
proof -
  have "(A - S) \<inter> mine_cells g = A \<inter> mine_cells g" for A
    using assms(3) by auto
  then show ?thesis
    using assms kb_finite_safe_step [of k S n]
    by (auto simp: sound_def safe_step_def)
qed

lemma sound_mine_step:
  fixes n :: int
  assumes "sound g k" "finite S" "S \<subseteq> mine_cells g"
  shows "sound g (fst (mine_step S (k, n)))"
proof -
  have "int (card ((A - S) \<inter> mine_cells g)) =
      int (card (A \<inter> mine_cells g)) - int (card (A \<inter> S))"
    if "finite A" for A
  proof -
    have "A - S = A - A \<inter> S"
      by auto
    moreover have "A \<inter> S \<inter> mine_cells g = A \<inter> S"
      using assms(3) by auto
    ultimately show ?thesis
      using card_Int_Diff [of A "A \<inter> S" "mine_cells g"] that by simp
  qed
  then show ?thesis
    using assms kb_finite_mine_step [of k S n]
    by (auto simp: sound_def mine_step_def kb_finite_def)
qed

lemma sound_update_pass:
  assumes "sound g kb"
  shows "sound g (fst (update_pass kb))"
proof (rule update_pass_rule [where J = "\<lambda>st. sound g (fst st)"])
  show "sound g (fst (kb, 0))"
    using assms by simp
next
  fix k and n :: int and S :: "cell set"
  assume k: "sound g (fst (k, n))" and S: "finite S"
    and pre: "S \<subseteq> safes k \<or> (\<exists>s \<in> set (knowledge k). S \<subseteq> cells s \<and> count s = 0)"
  have "S \<inter> mine_cells g = {}"
    using pre
  proof
    assume "S \<subseteq> safes k"
    then show ?thesis
      using k by (auto simp: sound_def)
  next
    assume "\<exists>s \<in> set (knowledge k). S \<subseteq> cells s \<and> count s = 0"
    then obtain s where s: "s \<in> set (knowledge k)" "S \<subseteq> cells s" "count s = 0"
      by blast
    then have "card (cells s \<inter> mine_cells g) = 0" "finite (cells s)"
      using k by (auto simp: sound_def kb_finite_def)
    then have "cells s \<inter> mine_cells g = {}"
      by simp
    with s(2) show ?thesis
      by auto
  qed
  then show "sound g (fst (safe_step S (k, n)))"
    using k S by (simp add: sound_safe_step)
next
  fix k and n :: int and S :: "cell set"
  assume k: "sound g (fst (k, n))" and S: "finite S"
    and pre: "S \<subseteq> mines k \<or>
      (\<exists>s \<in> set (knowledge k). S = cells s \<and> int (card (cells s)) = count s)"
  have "S \<subseteq> mine_cells g"
    using pre
  proof
    assume "S \<subseteq> mines k"
    then show ?thesis
      using k by (auto simp: sound_def)
  next
    assume "\<exists>s \<in> set (knowledge k). S = cells s \<and> int (card (cells s)) = count s"
    then obtain s where s: "s \<in> set (knowledge k)" "S = cells s" "int (card (cells s)) = count s"
      by blast
    then have "card (cells s \<inter> mine_cells g) = card (cells s)" "finite (cells s)"
      using k by (auto simp: sound_def kb_finite_def)
    then have "cells s \<inter> mine_cells g = cells s"
      by (intro card_subset_eq) auto
    with s(2) show ?thesis
      by auto
  qed
  then show "sound g (fst (mine_step S (k, n)))"
    using k S by (simp add: sound_mine_step)
qed

lemma sound_inference:
  assumes "sound g k"
  shows "sound g ((fst (inference k))\<lparr>knowledge := knowledge (fst (inference k)) @ snd (inference k)\<rparr>)"
proof -
  have fin: "kb_finite k"
    using assms by (simp add: sound_def)
  have "count d = int (card (cells d \<inter> mine_cells g))"
    if mem: "d \<in> set (candidates (knowledge k))" for d
  proof -
    obtain A B where d: "d = derive A B" "A \<in> set (knowledge k)" "B \<in> set (knowledge k)"
      "qualifies A B"
      using mem unfolding set_candidates by blast
    have "finite (cells A)" "cells B \<subseteq> cells A"
      using d fin by (auto simp: kb_finite_def qualifies_def)
    then show ?thesis
      using card_Int_Diff [of "cells A" "cells B" "mine_cells g"] d(2,3) assms
      by (simp add: d(1) derive_def sound_def)
  qed
  then show ?thesis
    using assms kb_finite_inference [OF fin]
    by (auto simp: sound_def inference_eq)
qed

lemma sound_observed:
  assumes "sound g kb" "cell \<notin> mine_cells g"
  shows "sound g (observed kb cell (nearby_mines g cell))"
proof -
  have "(A - {cell}) \<inter> mine_cells g = A \<inter> mine_cells g" for A
    using assms(2) by auto
  then show ?thesis
    using assms kb_finite_observed [of kb cell "nearby_mines g cell"]
    by (auto simp: sound_def observed_def nearby_mines_card)
qed

lemma plays_sound: "plays g kb \<Longrightarrow> sound g kb"
proof (induction rule: plays.induct)
  case start
  show ?case
    by (simp add: sound_def kb_finite_def MinesweeperAI_def)
next
  case (reveal kb cell kb')
  have "cell \<notin> mine_cells g"
    using reveal.hyps by (simp add: mine_cells_def)
  then have 0: "sound g (observed kb cell (nearby_mines g cell))"
    using reveal.IH by (rule sound_observed [rotated])
  have "settle (observed kb cell (nearby_mines g cell)) = Some kb'"
    using reveal.hyps by (simp add: add_knowledge_eq)
  moreover have "kb_finite (observed kb cell (nearby_mines g cell))"
    using 0 by (simp add: sound_def)
  ultimately have "kb_finite kb' \<and> sound g kb' \<and> propagated kb' []"
    using 0 by (rule settle_rule [where I = "sound g"])
      (simp_all add: sound_update_pass sound_inference)
  then show ?case by simp
next
  case (safe kb cell)
  then show ?case
    using sound_safe_step [of g kb "{cell}" 0] by (simp add: mark_safe_eq)
next
  case (mine kb cell)
  then show ?case
    using sound_mine_step [of g kb "{cell}" 0] by (simp add: mark_mine_eq)
next
  case (propagate kb kb')
  have "kb_finite kb"
    using propagate.IH by (simp add: sound_def)
  then have "\<exists>k. update kb = Some k \<and> kb_finite k \<and> unsaturated k \<and> clean k \<and> sound g k"
    using propagate.IH by (rule update_rule) (rule sound_update_pass)
  then show ?case
    using propagate.hyps by auto
next
  case (infer kb)
  then show ?case
    by (auto simp: inference_eq sound_def kb_finite_def)
qed

text \<open>
  Claim C4. With truthful inputs, in every state that a driver can observe each sentence
  of the knowledge has a count between 0 and the number of its cells.
\<close>

theorem count_in_range:
  "plays g kb \<Longrightarrow> \<forall>s \<in> set (knowledge kb). 0 \<le> count s \<and> count s \<le> int (card (cells s))"
proof
  fix s assume p: "plays g kb" and s: "s \<in> set (knowledge kb)"
  have "sound g kb"
    using p by (rule plays_sound)
  with s have "count s = int (card (cells s \<inter> mine_cells g))" "finite (cells s)"
    by (auto simp: sound_def kb_finite_def)
  moreover have "card (cells s \<inter> mine_cells g) \<le> card (cells s)"
    using \<open>finite (cells s)\<close> by (intro card_mono) auto
  ultimately show "0 \<le> count s \<and> count s \<le> int (card (cells s))"
    by simp
qed

theorem count_in_range_witness:
  "plays small_board small_kb2 \<and>
   knowledge small_kb2 =
     [\<lparr>cells = {(1, 0), (1, 1)}, count = 1\<rparr>, \<lparr>cells = {(1, 0), (1, 1)}, count = 1\<rparr>] \<and>
   0 \<le> count (knowledge small_kb2 ! 0) \<and>
   count (knowledge small_kb2 ! 0) \<le> int (card (cells (knowledge small_kb2 ! 0)))"
  using count_in_range [OF small_plays] small_plays
  by (simp add: small_kb2_def)

text \<open>
  Claim C5. With truthful inputs, in every state that a driver can observe no cell is
  both in the safes and in the mines.
\<close>

theorem safes_mines_disjoint:
  "plays g kb \<Longrightarrow> safes kb \<inter> mines kb = {}"
  using plays_sound [of g kb] by (auto simp: sound_def)

lemma small_plays3: "plays small_board small_kb3"
proof -
  have "in_bounds small_board (1, 1)" "\<not> is_mine small_board (1, 1)"
    "nearby_mines small_board (1, 1) = 1"
    by code_simp+
  moreover have "add_knowledge small_kb2 (1, 1) 1 = Some small_kb3"
    by code_simp
  ultimately show ?thesis
    using plays.reveal [OF small_plays, of "(1, 1)" small_kb3] by simp
qed

theorem safes_mines_disjoint_witness:
  "plays small_board small_kb3 \<and> safes small_kb3 = {(0, 0), (0, 1), (1, 1)} \<and>
   mines small_kb3 = {(1, 0)} \<and> safes small_kb3 \<inter> mines small_kb3 = {}"
  using safes_mines_disjoint [OF small_plays3] small_plays3
  by (simp add: small_kb3_def)

section \<open>A call of \<open>add_knowledge\<close> that does not return\<close>

lemma stuck_add_knowledge:
  "add_knowledge (MinesweeperAI 1 4) (0, 1) 100 = Some stuck_kb1"
  "add_knowledge stuck_kb1 (0, 1) 107 = Some stuck_kb2"
  by code_simp+

lemma stuck_shape_unsaturated:
  assumes "stuck_shape s" "cells s \<noteq> {}"
  shows "count s \<noteq> 0 \<and> int (card (cells s)) \<noteq> count s"
proof -
  consider "cells s = {(0, 0)}" "count s mod 7 = 6"
    | "cells s = {(0, 2)}" "count s mod 7 = 3"
    | "cells s = {(0, 0), (0, 2)}" "count s = 100 \<or> count s = 107"
    using assms unfolding stuck_shape_def by blast
  then show ?thesis
    by cases auto
qed

lemma stuck_shape_cells: "stuck_shape s \<Longrightarrow> cells s \<subseteq> {(0, 0), (0, 2)}"
  unfolding stuck_shape_def by blast

lemma stuck_settled:
  assumes "stuck k"
  shows "unsaturated k" "clean k"
proof -
  have shape: "stuck_shape s" if "s \<in> set (knowledge k)" for s
    using assms that by (simp add: stuck_def list_all_iff)
  show "unsaturated k"
    unfolding unsaturated_def using shape stuck_shape_unsaturated by blast
  show "clean k"
    unfolding clean_def
  proof
    fix s assume "s \<in> set (knowledge k)"
    then have "cells s \<subseteq> {(0, 0), (0, 2)}"
      using shape stuck_shape_cells by blast
    moreover have "(safes k \<union> mines k) \<inter> {(0, 0), (0, 2)} = {}"
      using assms unfolding stuck_def by blast
    ultimately show "cells s \<inter> (safes k \<union> mines k) = {}"
      by blast
  qed
qed

lemma stuck_update: "stuck k \<Longrightarrow> update k = Some k"
  by (subst update_unfold) (simp add: settled_update_pass stuck_settled)

lemma stuck_inference_nonempty:
  assumes "stuck k"
  shows "snd (inference k) \<noteq> []"
proof
  assume "snd (inference k) = []"
  then have all: "d \<in> set (knowledge k)" if "d \<in> set (candidates (knowledge k))" for d
    using that by (auto simp: inference_eq filter_empty_conv)
  define X where "X = {x. \<lparr>cells = {(0, 2)}, count = x\<rparr> \<in> set (knowledge k)}"
  have "X \<subseteq> count ` set (knowledge k)"
    by (force simp: X_def)
  then have fin: "finite X"
    by (rule finite_subset) simp
  have ne: "X \<noteq> {}"
    using assms by (auto simp: stuck_def X_def)
  define x where "x = Max X"
  have x: "\<lparr>cells = {(0, 2)}, count = x\<rparr> \<in> set (knowledge k)"
    using Max_in [OF fin ne] by (simp add: x_def X_def)
  have A: "\<lparr>cells = {(0, 0), (0, 2)}, count = 100\<rparr> \<in> set (knowledge k)"
    and B: "\<lparr>cells = {(0, 0), (0, 2)}, count = 107\<rparr> \<in> set (knowledge k)"
    using assms by (simp_all add: stuck_def)
  have "qualifies \<lparr>cells = {(0, 0), (0, 2)}, count = 100\<rparr> \<lparr>cells = {(0, 2)}, count = x\<rparr>"
    by (auto simp: qualifies_def)
  then have "derive \<lparr>cells = {(0, 0), (0, 2)}, count = 100\<rparr> \<lparr>cells = {(0, 2)}, count = x\<rparr>
      \<in> set (candidates (knowledge k))"
    using A x unfolding set_candidates by blast
  moreover have "derive \<lparr>cells = {(0, 0), (0, 2)}, count = 100\<rparr> \<lparr>cells = {(0, 2)}, count = x\<rparr>
      = \<lparr>cells = {(0, 0)}, count = 100 - x\<rparr>"
    by (auto simp: derive_def)
  ultimately have y: "\<lparr>cells = {(0, 0)}, count = 100 - x\<rparr> \<in> set (knowledge k)"
    using all by simp
  have "qualifies \<lparr>cells = {(0, 0), (0, 2)}, count = 107\<rparr> \<lparr>cells = {(0, 0)}, count = 100 - x\<rparr>"
    by (auto simp: qualifies_def)
  then have "derive \<lparr>cells = {(0, 0), (0, 2)}, count = 107\<rparr> \<lparr>cells = {(0, 0)}, count = 100 - x\<rparr>
      \<in> set (candidates (knowledge k))"
    using B y unfolding set_candidates by blast
  moreover have "derive \<lparr>cells = {(0, 0), (0, 2)}, count = 107\<rparr> \<lparr>cells = {(0, 0)}, count = 100 - x\<rparr>
      = \<lparr>cells = {(0, 2)}, count = x + 7\<rparr>"
    by (auto simp: derive_def)
  ultimately have "\<lparr>cells = {(0, 2)}, count = x + 7\<rparr> \<in> set (knowledge k)"
    using all by simp
  then have "x + 7 \<in> X"
    by (simp add: X_def)
  then have "x + 7 \<le> x"
    unfolding x_def using fin by (rule Max_ge [rotated])
  then show False by simp
qed

lemma stuck_derive:
  assumes A: "stuck_shape A" and B: "stuck_shape B" and q: "qualifies A B"
  shows "stuck_shape (derive A B)"
proof -
  have ne: "cells A \<noteq> {}" "cells B \<noteq> {}" and sub: "cells B \<subseteq> cells A"
    using q by (simp_all add: qualifies_def)
  have cA: "cells A = {(0, 0)} \<or> cells A = {(0, 2)} \<or> cells A = {(0, 0), (0, 2)}"
    using A ne(1) unfolding stuck_shape_def by blast
  have cB: "cells B = {(0, 0)} \<or> cells B = {(0, 2)} \<or> cells B = {(0, 0), (0, 2)}"
    using B ne(2) unfolding stuck_shape_def by blast
  consider "cells B = cells A"
    | "cells A = {(0, 0), (0, 2)}" "cells B = {(0, 0)}"
    | "cells A = {(0, 0), (0, 2)}" "cells B = {(0, 2)}"
    using cA cB sub by auto
  then show ?thesis
  proof cases
    case 1
    then show ?thesis by (simp add: derive_def stuck_shape_def)
  next
    case 2
    have "count A = 100 \<or> count A = 107" "count B mod 7 = 6"
      using A B 2 by (auto simp: stuck_shape_def)
    then have "(count A - count B) mod 7 = 3"
      by presburger
    moreover have "cells A - cells B = {(0, 2)}"
      using 2 by auto
    ultimately show ?thesis by (simp add: derive_def stuck_shape_def)
  next
    case 3
    have "count A = 100 \<or> count A = 107" "count B mod 7 = 3"
      using A B 3 by (auto simp: stuck_shape_def)
    then have "(count A - count B) mod 7 = 6"
      by presburger
    moreover have "cells A - cells B = {(0, 0)}"
      using 3 by auto
    ultimately show ?thesis by (simp add: derive_def stuck_shape_def)
  qed
qed

lemma stuck_inference:
  assumes "stuck k"
  shows "stuck ((fst (inference k))\<lparr>knowledge := knowledge (fst (inference k)) @ snd (inference k)\<rparr>)"
proof -
  define K where "K = knowledge k"
  define K' where "K' = filter (\<lambda>s. cells s \<noteq> {}) K @ filter (\<lambda>d. d \<notin> set K) (candidates K)"
  have old: "stuck_shape s" if "s \<in> set K" for s
    using assms that by (simp add: stuck_def list_all_iff K_def)
  have new: "stuck_shape d" if mem: "d \<in> set (candidates K)" for d
  proof -
    obtain A B where d: "d = derive A B" "A \<in> set K" "B \<in> set K" "qualifies A B"
      using mem unfolding set_candidates by blast
    show ?thesis
      unfolding d(1) using d(2,3) by (intro stuck_derive d(4) old)
  qed
  have 1: "list_all stuck_shape K'"
    using old new by (auto simp: K'_def list_all_iff)
  have keep: "s \<in> set K'" if "s \<in> set K" "cells s \<noteq> {}" for s
    using that by (simp add: K'_def)
  have 2: "\<lparr>cells = {(0, 0), (0, 2)}, count = 100\<rparr> \<in> set K'"
    "\<lparr>cells = {(0, 0), (0, 2)}, count = 107\<rparr> \<in> set K'"
    using assms by (simp_all add: keep stuck_def K_def)
  obtain x where "\<lparr>cells = {(0, 2)}, count = x\<rparr> \<in> set K"
    using assms unfolding stuck_def K_def by blast
  then have "\<lparr>cells = {(0, 2)}, count = x\<rparr> \<in> set K'"
    by (simp add: keep)
  then have 3: "\<exists>x. \<lparr>cells = {(0, 2)}, count = x\<rparr> \<in> set K'" ..
  have "(fst (inference k))\<lparr>knowledge := knowledge (fst (inference k)) @ snd (inference k)\<rparr>
      = k\<lparr>knowledge := K'\<rparr>"
    by (simp add: inference_eq K'_def K_def)
  moreover have "stuck (k\<lparr>knowledge := K'\<rparr>)"
    using assms 1 2 3 by (simp add: stuck_def)
  ultimately show ?thesis by simp
qed

lemma add_knowledge_loop_diverges:
  assumes inv: "Inv kb nd"
    and step: "\<And>k ds. Inv k ds \<Longrightarrow> ds \<noteq> [] \<and>
        (\<forall>k1. update (k\<lparr>knowledge := knowledge k @ ds\<rparr>) = Some k1 \<longrightarrow>
           Inv (fst (inference k1)) (snd (inference k1)))"
  shows "add_knowledge_loop kb nd = None"
proof (rule ccontr)
  assume "add_knowledge_loop kb nd \<noteq> None"
  then obtain y where run: "add_knowledge_loop kb nd = Some y"
    by auto
  have "\<not> Inv kb nd"
  proof (rule add_knowledge_loop.raw_induct [where P = "\<lambda>k ds y. \<not> Inv k ds", rotated, OF run])
    fix loop k ds y
    assume IH: "\<And>k ds y. loop k ds = Some y \<Longrightarrow> \<not> Inv k ds"
      and body: "(if ds \<noteq> [] then
          Option.bind (update (k\<lparr>knowledge := knowledge k @ ds\<rparr>))
            (\<lambda>kb1. let (kb2, new_data') = inference kb1 in loop kb2 new_data')
        else Some k) = Some y"
    show "\<not> Inv k ds"
    proof
      assume i: "Inv k ds"
      then have ne: "ds \<noteq> []"
        using step by blast
      then obtain k1 where k1: "update (k\<lparr>knowledge := knowledge k @ ds\<rparr>) = Some k1"
        "loop (fst (inference k1)) (snd (inference k1)) = Some y"
        using body by (auto simp: bind_eq_Some_conv case_prod_beta)
      have "Inv (fst (inference k1)) (snd (inference k1))"
        using step [OF i] k1(1) by blast
      with IH [OF k1(2)] show False ..
    qed
  qed
  with inv show False by simp
qed

lemma stuck_settle:
  assumes "stuck k"
  shows "settle k = None"
proof -
  define Inv where "Inv = (\<lambda>k ds. ds \<noteq> [] \<and> stuck (k\<lparr>knowledge := knowledge k @ ds\<rparr>))"
  have "add_knowledge_loop (fst (inference k)) (snd (inference k)) = None"
  proof (rule add_knowledge_loop_diverges [where Inv = Inv])
    show "Inv (fst (inference k)) (snd (inference k))"
      using assms by (simp add: Inv_def stuck_inference_nonempty stuck_inference)
  next
    fix k ds assume "Inv k ds"
    then have ne: "ds \<noteq> []" and s: "stuck (k\<lparr>knowledge := knowledge k @ ds\<rparr>)"
      by (simp_all add: Inv_def)
    have "Inv (fst (inference k1)) (snd (inference k1))"
      if "update (k\<lparr>knowledge := knowledge k @ ds\<rparr>) = Some k1" for k1
    proof -
      have "k1 = k\<lparr>knowledge := knowledge k @ ds\<rparr>"
        using that stuck_update [OF s] by simp
      then show ?thesis
        using s by (simp add: Inv_def stuck_inference_nonempty stuck_inference)
    qed
    with ne show "ds \<noteq> [] \<and>
        (\<forall>k1. update (k\<lparr>knowledge := knowledge k @ ds\<rparr>) = Some k1 \<longrightarrow>
           Inv (fst (inference k1)) (snd (inference k1)))"
      by blast
  qed
  then show ?thesis
    by (simp add: settle_def stuck_update [OF assms] case_prod_beta)
qed

lemma stuck_observed: "stuck (observed stuck_kb2 (0, 3) 52)"
proof -
  have "friends stuck_kb2 (0, 3) = {(0, 2)}"
    by code_simp
  then have n: "neighbors 1 4 (0, 3) = {(0, 2)}"
    by (simp add: friends_neighbors stuck_kb2_def)
  have k: "knowledge (observed stuck_kb2 (0, 3) 52) =
      [\<lparr>cells = {(0, 0), (0, 2)}, count = 100\<rparr>, \<lparr>cells = {(0, 0), (0, 2)}, count = 107\<rparr>,
       \<lparr>cells = {(0, 2)}, count = 52\<rparr>]"
    by (simp add: observed_def stuck_kb2_def n)
  have "stuck_shape \<lparr>cells = {(0, 0), (0, 2)}, count = 100\<rparr>"
    "stuck_shape \<lparr>cells = {(0, 0), (0, 2)}, count = 107\<rparr>"
    "stuck_shape \<lparr>cells = {(0, 2)}, count = 52\<rparr>"
    by (simp_all add: stuck_shape_def)
  moreover have "safes (observed stuck_kb2 (0, 3) 52) = {(0, 1), (0, 3)}"
    "mines (observed stuck_kb2 (0, 3) 52) = {}"
    by (auto simp: observed_def stuck_kb2_def)
  ultimately show ?thesis
    unfolding stuck_def k by simp
qed

text \<open>
  Claim C7 as the specification states it, for every cell and count, fails: the loop of
  \<open>add_knowledge\<close> need not end. A player for a board of one row and four columns is
  told 100 and then 107 for the cell \<open>(0, 1)\<close>; both calls return. The third call, with
  52 for \<open>(0, 3)\<close>, does not: the two sentences on \<open>{(0, 0), (0, 2)}\<close> let every
  \<open>inference\<close> derive a sentence on \<open>{(0, 2)}\<close> with a count 7 above the largest one so
  far, and no count is ever 0 or the number of cells, so nothing is ever marked.
\<close>

theorem add_knowledge_diverges:
  "add_knowledge (MinesweeperAI 1 4) (0, 1) 100 = Some stuck_kb1 \<and>
   add_knowledge stuck_kb1 (0, 1) 107 = Some stuck_kb2 \<and>
   add_knowledge stuck_kb2 (0, 3) 52 = None"
proof -
  have "add_knowledge stuck_kb2 (0, 3) 52 = None"
    by (simp add: add_knowledge_eq stuck_settle stuck_observed)
  with stuck_add_knowledge show ?thesis by simp
qed

section \<open>Truthful calls of \<open>add_knowledge\<close> return\<close>

lemma finite_occupied: "kb_finite k \<Longrightarrow> finite (occupied k)"
  by (auto simp: kb_finite_def occupied_def)

lemma shapes_Pow: "shapes k \<subseteq> Pow (occupied k) - {{}}"
  by (auto simp: shapes_def occupied_def)

lemma finite_shapes: "finite (shapes k)"
  by (simp add: shapes_def)

lemma card_shapes:
  assumes "kb_finite k"
  shows "card (shapes k) < 2 ^ card (occupied k)"
proof -
  have fin: "finite (Pow (occupied k))"
    using finite_occupied [OF assms] by simp
  have "card (shapes k) \<le> card (Pow (occupied k) - {{}})"
    using fin by (intro card_mono shapes_Pow) simp
  also have "\<dots> = 2 ^ card (occupied k) - 1"
    using fin by (simp add: card_Pow finite_occupied [OF assms])
  also have "\<dots> < 2 ^ card (occupied k)"
    by simp
  finally show ?thesis .
qed

lemma slack_less:
  assumes fin: "kb_finite k" "kb_finite k'"
    and sub: "occupied k' \<subseteq> occupied k"
    and grow: "occupied k' = occupied k \<Longrightarrow> shapes k \<subset> shapes k'"
  shows "slack k' < slack k"
proof (cases "occupied k' = occupied k")
  case True
  have "card (shapes k) < card (shapes k')"
    using grow [OF True] by (intro psubset_card_mono finite_shapes)
  moreover have "card (shapes k') < 2 ^ card (occupied k)"
    using card_shapes [OF fin(2)] True by simp
  ultimately show ?thesis
    by (simp add: slack_def True)
next
  case False
  then have "occupied k' \<subset> occupied k"
    using sub by blast
  then have "card (occupied k') < card (occupied k)"
    by (intro psubset_card_mono finite_occupied fin)
  then have "Suc (card (occupied k')) \<le> card (occupied k)"
    by simp
  then have "(2::nat) ^ Suc (card (occupied k')) \<le> 2 ^ card (occupied k)"
    by (intro power_increasing) simp_all
  then have "slack k' \<le> 2 ^ card (occupied k)"
    by (simp add: slack_def)
  moreover have "2 ^ card (occupied k) < slack k"
    using card_shapes [OF fin(1)] by (simp add: slack_def)
  ultimately show ?thesis
    by simp
qed

lemma sound_sentence_eq:
  assumes "sound g k" "sound g k'" "s \<in> set (knowledge k)" "s' \<in> set (knowledge k')"
    and "cells s = cells s'"
  shows "s = s'"
proof -
  have "count s = count s'"
    using assms by (simp add: sound_def)
  with assms(5) show ?thesis
    by simp
qed

lemma update_shrinks:
  assumes snd: "sound g k" and upd: "update k = Some k1"
  shows "sound g k1 \<and> unsaturated k1 \<and> clean k1 \<and> occupied k1 \<subseteq> occupied k \<and>
    (occupied k1 = occupied k \<longrightarrow> knowledge k1 = knowledge k)"
proof -
  define I where "I = (\<lambda>k' :: ai. sound g k' \<and>
     (length (knowledge k') = length (knowledge k) \<and> safes k \<subseteq> safes k' \<and> mines k \<subseteq> mines k' \<and>
     (\<forall>i < length (knowledge k). cells (knowledge k' ! i) \<subseteq> cells (knowledge k ! i) \<and>
          cells (knowledge k ! i) - cells (knowledge k' ! i) \<subseteq> safes k' \<union> mines k')))"
  have fin: "kb_finite k"
    using snd by (simp add: sound_def)
  have "\<exists>kb'. update k = Some kb' \<and> kb_finite kb' \<and> unsaturated kb' \<and> clean kb' \<and> I kb'"
  proof (rule update_rule [OF fin, where I = I])
    show "I k"
      using snd by (simp add: I_def)
  next
    fix k' assume "I k'"
    then show "I (fst (update_pass k'))"
      unfolding I_def using sound_update_pass [of g k'] extraction_update_pass [of k' "knowledge k" "safes k" "mines k"]
      by blast
  qed
  then have k1: "unsaturated k1" "clean k1" "I k1"
    using upd by auto
  have s1: "sound g k1"
    using k1(3) by (simp add: I_def)
  have len: "length (knowledge k1) = length (knowledge k)"
    and sub: "\<And>i. i < length (knowledge k) \<Longrightarrow> cells (knowledge k1 ! i) \<subseteq> cells (knowledge k ! i)"
    and ext: "\<And>i. i < length (knowledge k) \<Longrightarrow>
        cells (knowledge k ! i) - cells (knowledge k1 ! i) \<subseteq> safes k1 \<union> mines k1"
    using k1(3) by (simp_all add: I_def)
  have occ: "occupied k1 \<subseteq> occupied k"
  proof
    fix c assume "c \<in> occupied k1"
    then obtain i where i: "i < length (knowledge k1)" "c \<in> cells (knowledge k1 ! i)"
      by (auto simp: occupied_def in_set_conv_nth)
    then have "c \<in> cells (knowledge k ! i)" "knowledge k ! i \<in> set (knowledge k)"
      using sub [of i] len by auto
    then show "c \<in> occupied k"
      by (auto simp: occupied_def)
  qed
  have same: "knowledge k1 = knowledge k" if eq: "occupied k1 = occupied k"
  proof (rule nth_equalityI [OF len])
    fix i assume i: "i < length (knowledge k1)"
    then have i': "i < length (knowledge k)"
      using len by simp
    have m1: "knowledge k1 ! i \<in> set (knowledge k1)" and m: "knowledge k ! i \<in> set (knowledge k)"
      using i i' by simp_all
    have "cells (knowledge k ! i) - cells (knowledge k1 ! i) = {}"
    proof (rule ccontr)
      assume "cells (knowledge k ! i) - cells (knowledge k1 ! i) \<noteq> {}"
      then obtain c where c: "c \<in> cells (knowledge k ! i)" "c \<notin> cells (knowledge k1 ! i)"
        by blast
      then have "c \<in> safes k1 \<union> mines k1"
        using ext [OF i'] by blast
      then have "c \<notin> occupied k1"
        using k1(2) by (auto simp: clean_def occupied_def)
      moreover have "c \<in> occupied k"
        using c(1) m by (auto simp: occupied_def)
      ultimately show False
        using eq by simp
    qed
    then have "cells (knowledge k1 ! i) = cells (knowledge k ! i)"
      using sub [OF i'] by blast
    then show "knowledge k1 ! i = knowledge k ! i"
      by (rule sound_sentence_eq [OF s1 snd m1 m])
  qed
  show ?thesis
    using s1 k1(1,2) occ same by blast
qed

lemma occupied_inference:
  "occupied ((fst (inference k))\<lparr>knowledge := knowledge (fst (inference k)) @ snd (inference k)\<rparr>)
     \<subseteq> occupied k"
  by (auto simp: occupied_def inference_eq set_candidates derive_def)

lemma shapes_inference:
  assumes snd: "sound g k" and ne: "snd (inference k) \<noteq> []"
  shows "shapes k \<subset> shapes ((fst (inference k))\<lparr>knowledge := knowledge (fst (inference k)) @ snd (inference k)\<rparr>)"
proof -
  define k' where "k' = (fst (inference k))\<lparr>knowledge := knowledge (fst (inference k)) @ snd (inference k)\<rparr>"
  have K': "set (knowledge k') = {s \<in> set (knowledge k). cells s \<noteq> {}} \<union>
      {d \<in> set (candidates (knowledge k)). d \<notin> set (knowledge k)}"
    by (auto simp: k'_def inference_eq)
  have sub: "shapes k \<subseteq> shapes k'"
    unfolding shapes_def K' by auto
  obtain d where "d \<in> set (snd (inference k))"
    using ne by (cases "snd (inference k)") auto
  then have d: "d \<in> set (candidates (knowledge k))" "d \<notin> set (knowledge k)"
    by (simp_all add: inference_eq)
  obtain A B where AB: "d = derive A B" "A \<in> set (knowledge k)" "B \<in> set (knowledge k)"
    "qualifies A B"
    using d(1) unfolding set_candidates by blast
  have fin: "finite (cells A)"
    using snd AB(2) by (simp add: sound_def kb_finite_def)
  have cnt: "count d = int (card (cells d \<inter> mine_cells g))"
    using card_Int_Diff [of "cells A" "cells B" "mine_cells g"] fin AB snd
    by (simp add: derive_def sound_def qualifies_def)
  have "cells d \<noteq> {}"
  proof
    assume "cells d = {}"
    then have "cells A = cells B"
      using AB(1,4) by (auto simp: derive_def qualifies_def)
    then have "A = B"
      by (rule sound_sentence_eq [OF snd snd AB(2,3)])
    then show False
      using AB(4) by (simp add: qualifies_def)
  qed
  moreover have "cells d \<notin> cells ` set (knowledge k)"
  proof
    assume "cells d \<in> cells ` set (knowledge k)"
    then obtain s where s: "s \<in> set (knowledge k)" "cells s = cells d"
      by auto
    then have "count s = count d"
      using snd cnt by (simp add: sound_def)
    then have "s = d"
      using s(2) by simp
    then show False
      using s(1) d(2) by simp
  qed
  ultimately have "cells d \<notin> shapes k" "cells d \<in> shapes k'"
    using d unfolding shapes_def K' by auto
  then show ?thesis
    unfolding k'_def [symmetric] using sub by blast
qed

lemma add_knowledge_loop_returns:
  assumes "sound g (kb\<lparr>knowledge := knowledge kb @ nd\<rparr>)"
  shows "\<exists>y. add_knowledge_loop kb nd = Some y"
  using assms
proof (induction "slack (kb\<lparr>knowledge := knowledge kb @ nd\<rparr>)" arbitrary: kb nd rule: less_induct)
  case less
  define k0 where "k0 = kb\<lparr>knowledge := knowledge kb @ nd\<rparr>"
  have s0: "sound g k0"
    using less.prems by (simp add: k0_def)
  then have fin0: "kb_finite k0"
    by (simp add: sound_def)
  show ?case
  proof (cases "nd = []")
    case True
    then show ?thesis
      by (subst add_knowledge_loop.simps) simp
  next
    case False
    obtain k1 where k1: "update k0 = Some k1"
      using update_terminates [OF fin0] by blast
    have s1: "sound g k1" and occ1: "occupied k1 \<subseteq> occupied k0"
      and same: "occupied k1 = occupied k0 \<Longrightarrow> knowledge k1 = knowledge k0"
      using update_shrinks [OF s0 k1] by simp_all
    define k2 where "k2 = fst (inference k1)"
    define nd' where "nd' = snd (inference k1)"
    define k' where "k' = k2\<lparr>knowledge := knowledge k2 @ nd'\<rparr>"
    have unfold: "add_knowledge_loop kb nd = add_knowledge_loop k2 nd'"
      using False k1 by (subst add_knowledge_loop.simps)
        (simp add: k0_def k2_def nd'_def case_prod_beta)
    show ?thesis
    proof (cases "nd' = []")
      case True
      then have "add_knowledge_loop k2 nd' = Some k2"
        by (subst add_knowledge_loop.simps) simp
      then show ?thesis
        by (simp add: unfold)
    next
      case ne: False
      have s': "sound g k'"
        unfolding k'_def k2_def nd'_def by (rule sound_inference [OF s1])
      then have fin': "kb_finite k'"
        by (simp add: sound_def)
      have occ': "occupied k' \<subseteq> occupied k1"
        unfolding k'_def k2_def nd'_def by (rule occupied_inference)
      have grow1: "shapes k1 \<subset> shapes k'"
        unfolding k'_def k2_def nd'_def using ne
        by (intro shapes_inference [OF s1]) (simp add: nd'_def)
      have "slack k' < slack k0"
      proof (rule slack_less [OF fin0 fin'])
        show "occupied k' \<subseteq> occupied k0"
          using occ' occ1 by blast
      next
        assume "occupied k' = occupied k0"
        then have "occupied k1 = occupied k0"
          using occ' occ1 by blast
        then have "shapes k1 = shapes k0"
          using same by (simp add: shapes_def)
        with grow1 show "shapes k0 \<subset> shapes k'"
          by simp
      qed
      then have "\<exists>y. add_knowledge_loop k2 nd' = Some y"
        using s' by (intro less.hyps) (simp_all add: k'_def k0_def)
      then show ?thesis
        by (simp add: unfold)
    qed
  qed
qed

lemma settle_returns:
  assumes "sound g k"
  shows "\<exists>y. settle k = Some y"
proof -
  have fin: "kb_finite k"
    using assms by (simp add: sound_def)
  obtain k1 where k1: "update k = Some k1"
    using update_terminates [OF fin] by blast
  have s1: "sound g k1"
    using update_shrinks [OF assms k1] by simp
  have "\<exists>y. add_knowledge_loop (fst (inference k1)) (snd (inference k1)) = Some y"
    by (rule add_knowledge_loop_returns [OF sound_inference [OF s1]])
  then show ?thesis
    by (simp add: settle_def k1 case_prod_beta)
qed

lemma add_knowledge_returns:
  assumes "sound g kb" "cell \<notin> mine_cells g"
  shows "\<exists>kb'. add_knowledge kb cell (nearby_mines g cell) = Some kb'"
  unfolding add_knowledge_eq by (rule settle_returns [OF sound_observed [OF assms]])

lemma small_plays1: "plays small_board small_kb1"
proof -
  have "plays small_board (MinesweeperAI 2 2)"
    using plays.start [OF small_board_facts(1)] by (simp add: small_board_def)
  then show ?thesis
    using plays.reveal [OF _ small_board_facts(2,3), of "MinesweeperAI 2 2" small_kb1]
      small_add_knowledge(1)
    by (simp add: small_board_facts)
qed

text \<open>
  Claim C7, as the code has it. \<open>add_knowledge\<close> is the rest of the procedure (\<open>update\<close>,
  \<open>inference\<close> and the loop of both) run on the state \<open>observed\<close>: the cell recorded in the
  moves made and in the safes and removed from the sentences, and one sentence appended,
  of all the neighbours of the cell on the grid, whether known or not, with the count as
  given. When it returns, on a state whose sets are finite, the cell is a move made and
  a safe cell, a pass of the propagation changes nothing any more, and the last call of
  \<open>inference\<close>, on a state the propagation had settled, returned no statement. With
  truthful inputs it does return: in a state reached by truthful play, for a cell of the
  board that holds no mine and the count the board gives for it.
\<close>

theorem add_knowledge_observes:
  "add_knowledge kb cell n = settle (observed kb cell n) \<and>
   (\<forall>kb'. kb_finite kb \<and> add_knowledge kb cell n = Some kb' \<longrightarrow>
      moves_made kb' = insert cell (moves_made kb) \<and> cell \<in> safes kb' \<and>
      update_pass kb' = (kb', 0) \<and>
      (\<exists>k. update_pass k = (k, 0) \<and> inference k = (kb', []))) \<and>
   (\<forall>g. plays g kb \<and> in_bounds g cell \<and> \<not> is_mine g cell \<and> n = nearby_mines g cell \<longrightarrow>
      (\<exists>kb'. add_knowledge kb cell n = Some kb'))"
proof -
  have "\<exists>kb'. add_knowledge kb cell n = Some kb'"
    if "plays g kb \<and> in_bounds g cell \<and> \<not> is_mine g cell \<and> n = nearby_mines g cell" for g
  proof -
    have "sound g kb" "cell \<notin> mine_cells g"
      using that by (simp_all add: plays_sound mine_cells_def)
    then show ?thesis
      using add_knowledge_returns [of g kb cell] that by simp
  qed
  with add_knowledge_fixpoint [of kb cell n] show ?thesis
    by blast
qed

theorem add_knowledge_observes_witness:
  "kb_finite small_kb1 \<and> plays small_board small_kb1 \<and>
   in_bounds small_board (0, 1) \<and> \<not> is_mine small_board (0, 1) \<and>
   nearby_mines small_board (0, 1) = 1 \<and>
   add_knowledge small_kb1 (0, 1) 1 = Some small_kb2 \<and>
   (0, 0) \<in> safes small_kb1 \<and>
   knowledge (observed small_kb1 (0, 1) 1) =
     [\<lparr>cells = {(1, 0), (1, 1)}, count = 1\<rparr>, \<lparr>cells = {(0, 0), (1, 0), (1, 1)}, count = 1\<rparr>] \<and>
   moves_made small_kb2 = insert (0, 1) (moves_made small_kb1) \<and> (0, 1) \<in> safes small_kb2 \<and>
   update_pass small_kb2 = (small_kb2, 0) \<and>
   (\<exists>kb'. add_knowledge small_kb1 (0, 1) 1 = Some kb')"
proof -
  note t = add_knowledge_observes [of small_kb1 "(0, 1)" 1]
  have run: "add_knowledge small_kb1 (0, 1) 1 = Some small_kb2"
    by (rule small_add_knowledge(2))
  have 1: "moves_made small_kb2 = insert (0, 1) (moves_made small_kb1) \<and>
      (0, 1) \<in> safes small_kb2 \<and> update_pass small_kb2 = (small_kb2, 0)"
    using t kb_finite_small_kb1 run by blast
  have "plays small_board small_kb1 \<and> in_bounds small_board (0, 1) \<and>
      \<not> is_mine small_board (0, 1) \<and> 1 = nearby_mines small_board (0, 1) \<longrightarrow>
      (\<exists>kb'. add_knowledge small_kb1 (0, 1) 1 = Some kb')"
    using t by blast
  then have 2: "\<exists>kb'. add_knowledge small_kb1 (0, 1) 1 = Some kb'"
    by (simp add: small_plays1 small_board_facts)
  have 3: "(0, 0) \<in> safes small_kb1"
    by (simp add: small_kb1_def)
  show ?thesis
    using 1 2 3 run kb_finite_small_kb1 small_plays1 small_board_facts(4,5,7) small_observed
    by blast
qed

end
